theory Spec2Isabelle
  imports Main
begin

section \<open>Strings and numbers of the runtime\<close>

text \<open>
  A string is a list of code units; the development covers code units below 256, one
  \<^typ>\<open>char\<close> each. The white space of \<open>String.prototype.trim\<close> and of the regular
  expression classes \<open>\s\<close> and \<open>\S\<close> in that range is tab, line feed, vertical tab,
  form feed, carriage return, space and the no-break space.
\<close>

definition is_space :: "char \<Rightarrow> bool" where
  "is_space c \<longleftrightarrow>
     c \<in> set [CHR 0x09, CHR 0x0A, CHR 0x0B, CHR 0x0C, CHR 0x0D, CHR 0x20, CHR 0xA0]"

definition trimStart :: "string \<Rightarrow> string" where
  "trimStart s = dropWhile is_space s"

definition trim :: "string \<Rightarrow> string" where
  "trim s = rev (dropWhile is_space (rev (dropWhile is_space s)))"

text \<open>
  A Number is an integer or NaN. The source only adds 1 to a counter, adds 900000 to a
  time stamp and compares; these are exact on the integers a double represents exactly,
  and the model takes them on all of \<^typ>\<open>int\<close>.
\<close>

datatype number = NaN | Num int

fun num_lt :: "number \<Rightarrow> number \<Rightarrow> bool" where
  "num_lt (Num a) (Num b) = (a < b)"
| "num_lt _ _ = False"

fun num_ge :: "number \<Rightarrow> number \<Rightarrow> bool" where
  "num_ge (Num a) (Num b) = (b \<le> a)"
| "num_ge _ _ = False"

fun num_add :: "number \<Rightarrow> number \<Rightarrow> number" where
  "num_add (Num a) (Num b) = Num (a + b)"
| "num_add _ _ = NaN"

fun num_truthy :: "number \<Rightarrow> bool" where
  "num_truthy (Num a) = (a \<noteq> 0)"
| "num_truthy NaN = False"

subsection \<open>Number.prototype.toString\<close>

definition digit_char :: "nat \<Rightarrow> char" where
  "digit_char d = ''0123456789'' ! (d mod 10)"

fun digits :: "nat \<Rightarrow> string" where
  "digits n = (if n < 10 then [digit_char n] else digits (n div 10) @ [digit_char (n mod 10)])"

declare digits.simps [simp del]

fun num_toString :: "number \<Rightarrow> string" where
  "num_toString NaN = ''NaN''"
| "num_toString (Num i) = (if i < 0 then CHR ''-'' # digits (nat (- i)) else digits (nat i))"

declare num_toString.simps [simp del]

subsection \<open>parseInt with no radix argument\<close>

text \<open>
  \<open>parseInt\<close> skips leading white space, reads a sign, switches to radix 16 after a
  \<open>0x\<close> or \<open>0X\<close> prefix, and reads the longest prefix of digits of the radix; with no
  digit the result is NaN.
\<close>

definition digit_of :: "char \<Rightarrow> nat" where
  "digit_of c =
     (let k = of_char c :: nat in
      if 48 \<le> k \<and> k \<le> 57 then k - 48
      else if 97 \<le> k \<and> k \<le> 122 then k - 87
      else if 65 \<le> k \<and> k \<le> 90 then k - 55
      else 36)"

definition digits_value :: "nat \<Rightarrow> string \<Rightarrow> nat" where
  "digits_value r ds = foldl (\<lambda>acc c. acc * r + digit_of c) 0 ds"

definition parse_digits :: "nat \<Rightarrow> string \<Rightarrow> nat option" where
  "parse_digits r s =
     (let z = takeWhile (\<lambda>c. digit_of c < r) s
      in if z = [] then None else Some (digits_value r z))"

definition parse_unsigned :: "string \<Rightarrow> nat option" where
  "parse_unsigned s =
     (case s of
        c # d # rest \<Rightarrow>
          if c = CHR ''0'' \<and> (d = CHR ''x'' \<or> d = CHR ''X'') then parse_digits 16 rest
          else parse_digits 10 s
      | _ \<Rightarrow> parse_digits 10 s)"

definition parseInt :: "string \<Rightarrow> number" where
  "parseInt str =
     (let s = trimStart str;
          neg = (s \<noteq> [] \<and> hd s = CHR ''-'');
          body = (if s \<noteq> [] \<and> (hd s = CHR ''-'' \<or> hd s = CHR ''+'') then tl s else s)
      in case parse_unsigned body of
           None \<Rightarrow> NaN
         | Some n \<Rightarrow> Num (if neg then - int n else int n))"

section \<open>The lock screen of the secret garden\<close>

text \<open>
  The state of the \<open>SecretGardenLock\<close> component (its four \<open>useState\<close> cells) together
  with the two browser stores it reads and writes. \<open>lockUntil\<close> is \<open>null\<close> or a Number.
\<close>

type_synonym storage = "string \<rightharpoonup> string"

definition emptyStorage :: storage where
  "emptyStorage = Map.empty"

definition getItem :: "storage \<Rightarrow> string \<Rightarrow> string option" where
  "getItem st k = st k"

definition setItem :: "string \<Rightarrow> string \<Rightarrow> storage \<Rightarrow> storage" where
  "setItem k v st = st(k \<mapsto> v)"

definition removeItem :: "string \<Rightarrow> storage \<Rightarrow> storage" where
  "removeItem k st = st(k := None)"

record gate =
  code :: string
  attempts :: number
  isLocked :: bool
  lockUntil :: "number option"
  localStorage :: storage
  sessionStorage :: storage

definition secret :: string where
  "secret = ''080607012025''"

definition lockMillis :: int where
  "lockMillis = 15 * 60 * 1000"

text \<open>
  The mount effect (\<open>Check if already locked\<close>): the component starts from its initial
  cells, reads \<open>secretLockUntil\<close> and then \<open>secretAttempts\<close>. A stored string counts when
  it is present and not empty. \<open>now\<close> is \<open>new Date().getTime()\<close>.
\<close>

definition initialize :: "int \<Rightarrow> storage \<Rightarrow> storage \<Rightarrow> gate" where
  "initialize now ls ss =
     (let s0 = \<lparr>code = [], attempts = Num 0, isLocked = False, lockUntil = None,
                localStorage = ls, sessionStorage = ss\<rparr>;
          s1 = (case getItem ls ''secretLockUntil'' of
                  None \<Rightarrow> s0
                | Some savedLockUntil \<Rightarrow>
                    if savedLockUntil = [] then s0
                    else let lockTime = parseInt savedLockUntil in
                      if num_lt (Num now) lockTime
                      then s0\<lparr>isLocked := True, lockUntil := Some lockTime\<rparr>
                      else s0\<lparr>localStorage := removeItem ''secretLockUntil'' ls\<rparr>)
      in case getItem ls ''secretAttempts'' of
           None \<Rightarrow> s1
         | Some savedAttempts \<Rightarrow>
             if savedAttempts = [] then s1 else s1\<lparr>attempts := parseInt savedAttempts\<rparr>)"

text \<open>
  One firing of the lockout timer (\<open>Handle lockout timer\<close>). The interval exists only
  while \<open>isLocked && lockUntil\<close> holds.
\<close>

definition lock_expired :: "int \<Rightarrow> gate \<Rightarrow> bool" where
  "lock_expired now g \<longleftrightarrow>
     isLocked g \<and>
     (case lockUntil g of None \<Rightarrow> False | Some l \<Rightarrow> num_truthy l \<and> num_ge (Num now) l)"

definition tick :: "int \<Rightarrow> gate \<Rightarrow> gate" where
  "tick now g =
     (if lock_expired now g
      then g\<lparr>isLocked := False, lockUntil := None, attempts := Num 0,
             localStorage :=
               removeItem ''secretAttempts'' (removeItem ''secretLockUntil'' (localStorage g))\<rparr>
      else g)"

text \<open>
  \<open>handleSubmit\<close> reads the \<open>code\<close> cell. The first component of the result tells whether
  \<open>onUnlock\<close> was called.
\<close>

definition handleSubmit :: "int \<Rightarrow> gate \<Rightarrow> bool \<times> gate" where
  "handleSubmit now g =
     (if isLocked g \<or> trim (code g) = [] then (False, g)
      else if code g = secret then
        (True, g\<lparr>sessionStorage := setItem ''secretUnlocked'' ''true'' (sessionStorage g),
                 localStorage := removeItem ''secretAttempts'' (localStorage g)\<rparr>)
      else
        let newAttempts = num_add (attempts g) (Num 1);
            g1 = g\<lparr>attempts := newAttempts,
                   localStorage :=
                     setItem ''secretAttempts'' (num_toString newAttempts) (localStorage g)\<rparr>;
            g2 = (if num_ge newAttempts (Num 5) then
                    let lockTime = Num (now + lockMillis) in
                    g1\<lparr>lockUntil := Some lockTime, isLocked := True,
                       localStorage :=
                         setItem ''secretLockUntil'' (num_toString lockTime) (localStorage g1)\<rparr>
                  else g1)
        in (False, g2\<lparr>code := []\<rparr>))"

text \<open>Typing a code into the input (\<open>setCode\<close>) and submitting the form.\<close>

definition submit :: "string \<Rightarrow> int \<Rightarrow> gate \<Rightarrow> bool \<times> gate" where
  "submit c now g = handleSubmit now (g\<lparr>code := c\<rparr>)"

fun submits :: "(string \<times> int) list \<Rightarrow> gate \<Rightarrow> gate" where
  "submits [] g = g"
| "submits ((c, now) # rest) g = submits rest (snd (submit c now g))"

text \<open>
  A submission that counts as a failed attempt: the code passes the form's own guard
  (it is not blank) and is not the secret.
\<close>

definition wrong_code :: "string \<Rightarrow> bool" where
  "wrong_code c \<longleftrightarrow> trim c \<noteq> [] \<and> c \<noteq> secret"

text \<open>
  The lock flag and the lock time are set and cleared together, and a lock time that is
  set is a non-zero number, so that the lockout timer is installed for it.
\<close>

definition gate_wf :: "gate \<Rightarrow> bool" where
  "gate_wf g \<longleftrightarrow>
     (isLocked g \<longleftrightarrow> lockUntil g \<noteq> None) \<and>
     (case lockUntil g of None \<Rightarrow> True | Some l \<Rightarrow> num_truthy l)"

text \<open>
  While the screen is unlocked no lock time is stored that a later mount would read: the
  key is absent or holds the empty string.
\<close>

definition lock_store_wf :: "gate \<Rightarrow> bool" where
  "lock_store_wf g \<longleftrightarrow>
     isLocked g \<or> getItem (localStorage g) ''secretLockUntil'' = None
     \<or> getItem (localStorage g) ''secretLockUntil'' = Some []"

text \<open>
  The states of the lock screen: mounted at some time over any stored data, then driven by
  submissions and timer firings. The clock never reads a time before the epoch.
\<close>

inductive reachable :: "gate \<Rightarrow> bool" where
  r_mount: "0 \<le> now \<Longrightarrow> reachable (initialize now ls ss)"
| r_submit: "reachable g \<Longrightarrow> 0 \<le> now \<Longrightarrow> reachable (snd (submit c now g))"
| r_tick: "reachable g \<Longrightarrow> reachable (tick now g)"

text \<open>
  The branch of the mount effect that finds a stored lock time which is no longer in the
  future.
\<close>

definition stored_lock_expired :: "int \<Rightarrow> storage \<Rightarrow> bool" where
  "stored_lock_expired now ls \<longleftrightarrow>
     (case getItem ls ''secretLockUntil'' of
        None \<Rightarrow> False
      | Some savedLockUntil \<Rightarrow>
          savedLockUntil \<noteq> [] \<and> \<not> num_lt (Num now) (parseInt savedLockUntil))"

text \<open>
  Runs that start with nothing stored and in which the screen is mounted again only while
  no stored lock has expired.
\<close>

inductive gate_run :: "gate \<Rightarrow> bool" where
  g_fresh: "0 \<le> now \<Longrightarrow> gate_run (initialize now emptyStorage ss)"
| g_mount: "gate_run g \<Longrightarrow> 0 \<le> now \<Longrightarrow> \<not> stored_lock_expired now (localStorage g) \<Longrightarrow>
            gate_run (initialize now (localStorage g) (sessionStorage g))"
| g_submit: "gate_run g \<Longrightarrow> 0 \<le> now \<Longrightarrow> gate_run (snd (submit c now g))"
| g_tick: "gate_run g \<Longrightarrow> gate_run (tick now g)"

definition attempts_in_range :: "gate \<Rightarrow> bool" where
  "attempts_in_range g \<longleftrightarrow> (case attempts g of NaN \<Rightarrow> False | Num n \<Rightarrow> 0 \<le> n \<and> n \<le> 5)"

text \<open>Concrete runs: a fresh browser profile, and four wrong codes one second apart.\<close>

definition fresh_gate :: gate where
  "fresh_gate = initialize 0 emptyStorage emptyStorage"

definition four_wrong :: "(string \<times> int) list" where
  "four_wrong = [(''000000000000'', 1000), (''000000000000'', 2000),
                 (''000000000000'', 3000), (''000000000000'', 4000)]"

definition three_wrong :: "(string \<times> int) list" where
  "three_wrong = [(''000000000000'', 1000), (''000000000000'', 2000),
                  (''000000000000'', 3000)]"

definition three_wrong_gate :: gate where
  "three_wrong_gate = submits three_wrong fresh_gate"

definition locked_gate :: gate where
  "locked_gate = snd (submit ''000000000000'' 5000 (submits four_wrong fresh_gate))"

text \<open>
  What holds of the counter and the stores along a \<open>gate_run\<close>: the counter is between 0
  and 5 and below 5 while unlocked, a lock time is stored exactly while locked, and a
  stored counter was written by \<open>handleSubmit\<close>.
\<close>

definition run_inv :: "gate \<Rightarrow> bool" where
  "run_inv g \<longleftrightarrow>
     (\<exists>n. attempts g = Num n \<and> 0 \<le> n \<and> n \<le> 5 \<and> (n = 5 \<longrightarrow> isLocked g)) \<and>
     (isLocked g \<longleftrightarrow> lockUntil g \<noteq> None) \<and>
     (isLocked g \<longrightarrow> (\<exists>v. getItem (localStorage g) ''secretLockUntil'' = Some v \<and> v \<noteq> [])) \<and>
     (\<not> isLocked g \<longrightarrow> getItem (localStorage g) ''secretLockUntil'' = None) \<and>
     (getItem (localStorage g) ''secretAttempts'' = None \<or>
      (\<exists>k. 1 \<le> k \<and> k \<le> 5 \<and> (k = 5 \<longrightarrow> isLocked g) \<and>
           getItem (localStorage g) ''secretAttempts'' = Some (num_toString (Num k))))"

text \<open>
  The lock of \<open>locked_gate\<close> runs out at 905000. The page is loaded again later, and one
  more wrong code is submitted.
\<close>

definition reloaded_gate :: gate where
  "reloaded_gate = initialize 1000000 (localStorage locked_gate) (sessionStorage locked_gate)"

definition over_gate :: gate where
  "over_gate = snd (submit ''000000000000'' 1001000 reloaded_gate)"

section \<open>Navigation in the application shell\<close>

text \<open>
  The cells of \<open>DivingWebsite\<close> that navigation reads and writes, and the one-shot timers
  that \<open>handleNavigation\<close> has scheduled and that have not fired yet, each with the time
  it is due and the page it will show, in the order they were scheduled.
\<close>

record app =
  currentPage :: string
  isTransitioning :: bool
  isMobileMenuOpen :: bool
  secretUnlocked :: bool
  timers :: "(int \<times> string) list"

definition transitionMillis :: int where
  "transitionMillis = 350"

text \<open>The callback that \<open>handleNavigation\<close> hands to \<open>setTimeout\<close>.\<close>

definition navigation_timeout :: "string \<Rightarrow> app \<Rightarrow> app" where
  "navigation_timeout page a =
     a\<lparr>currentPage := page, isTransitioning := False, isMobileMenuOpen := False\<rparr>"

definition handleNavigation :: "int \<Rightarrow> string \<Rightarrow> app \<Rightarrow> app" where
  "handleNavigation now page a =
     (if currentPage a = page then a
      else a\<lparr>isTransitioning := True,
             timers := timers a @ [(now + transitionMillis, page)]\<rparr>)"

definition handleSecretUnlock :: "app \<Rightarrow> app" where
  "handleSecretUnlock a = a\<lparr>secretUnlocked := True, currentPage := ''secret-garden''\<rparr>"

text \<open>The \<open>onClick\<close> of a page button in the header and in the mobile menu.\<close>

definition nav_button :: "int \<Rightarrow> string \<Rightarrow> app \<Rightarrow> app" where
  "nav_button now page a =
     (if page = ''secretGarden'' then
        (if secretUnlocked a then handleNavigation now ''secret-garden'' a
         else a\<lparr>currentPage := ''secret-garden''\<rparr>)
      else handleNavigation now page a)"

text \<open>
  The timers that are due at \<open>now\<close> fire in the order they were scheduled; the others stay
  pending.
\<close>

fun fire_due :: "int \<Rightarrow> (int \<times> string) list \<Rightarrow> app \<Rightarrow> app" where
  "fire_due now [] a = a"
| "fire_due now ((due, page) # rest) a =
     (if due \<le> now then fire_due now rest (navigation_timeout page a)
      else fire_due now rest a)"

definition run_timers :: "int \<Rightarrow> app \<Rightarrow> app" where
  "run_timers now a =
     (fire_due now (timers a) a)\<lparr>timers := filter (\<lambda>(due, page). now < due) (timers a)\<rparr>"

text \<open>
  What happens to the shell: a direct call of \<open>handleNavigation\<close> (logo, page links, the
  suggestion form), a page button, the lock screen's \<open>onUnlock\<close>, the menu toggle, and
  the passing of time.
\<close>

datatype event = Navigate string | NavButton string | SecretUnlock | ToggleMenu | TimersDue

fun app_step :: "int \<Rightarrow> event \<Rightarrow> app \<Rightarrow> app" where
  "app_step now (Navigate page) a = handleNavigation now page a"
| "app_step now (NavButton page) a = nav_button now page a"
| "app_step now SecretUnlock a = handleSecretUnlock a"
| "app_step now ToggleMenu a = a\<lparr>isMobileMenuOpen := \<not> isMobileMenuOpen a\<rparr>"
| "app_step now TimersDue a = run_timers now a"

definition app_start :: app where
  "app_start = \<lparr>currentPage = ''home'', isTransitioning = False, isMobileMenuOpen = False,
                 secretUnlocked = False, timers = []\<rparr>"

text \<open>The shell right after \<open>handleNavigation('about')\<close> was called on the home page at time 0.\<close>

definition mid_transition :: app where
  "mid_transition = handleNavigation 0 ''about'' app_start"

text \<open>
  \<open>renderCurrentPage\<close>: the component shown for the current page. The lock screen is
  mounted exactly while the page is \<open>secret-garden\<close> and the shell's \<open>secretUnlocked\<close> is
  false.
\<close>

datatype view =
    HomePage | AboutPage | InfoPage | ToMontionPage | ThankYouPage
  | SecretGarden | SecretGardenLock

definition renderCurrentPage :: "app \<Rightarrow> view" where
  "renderCurrentPage a =
     (if currentPage a = ''home'' then HomePage
      else if currentPage a = ''about'' then AboutPage
      else if currentPage a = ''info'' then InfoPage
      else if currentPage a = ''toMontion'' then ToMontionPage
      else if currentPage a = ''thank-you'' then ThankYouPage
      else if currentPage a = ''secret-garden'' then
        (if secretUnlocked a then SecretGarden else SecretGardenLock)
      else HomePage)"

section \<open>The suggestion form\<close>

record suggestionForm =
  title :: string
  email :: string

text \<open>
  The regular expression \<open>/\S+@\S+\.\S+/\<close> as a sequence of atoms, matched by
  backtracking; \<open>regex_test\<close> tries every start position, as \<open>test\<close> does for an
  expression with no anchor.
\<close>

datatype atom = NonSpaces | Lit char

fun match_here :: "atom list \<Rightarrow> string \<Rightarrow> bool" where
  "match_here [] s = True"
| "match_here (Lit c # ps) [] = False"
| "match_here (Lit c # ps) (x # xs) = (x = c \<and> match_here ps xs)"
| "match_here (NonSpaces # ps) [] = False"
| "match_here (NonSpaces # ps) (x # xs) =
     (\<not> is_space x \<and> (match_here (NonSpaces # ps) xs \<or> match_here ps xs))"

fun regex_test :: "atom list \<Rightarrow> string \<Rightarrow> bool" where
  "regex_test p [] = match_here p []"
| "regex_test p (x # xs) = (match_here p (x # xs) \<or> regex_test p xs)"

definition email_pattern :: "atom list" where
  "email_pattern = [NonSpaces, Lit CHR ''@'', NonSpaces, Lit CHR ''.'', NonSpaces]"

text \<open>
  \<open>validateForm\<close> builds the \<open>errors\<close> object, hands it to \<open>setFormErrors\<close> (the first
  component) and returns whether it has no key (the second).
\<close>

definition validateForm :: "suggestionForm \<Rightarrow> (string \<times> string) list \<times> bool" where
  "validateForm form =
     (let errors0 = [];
          errors1 = (if trim (title form) = []
                     then errors0 @ [(''title'', ''Please enter your dive suggestion'')]
                     else errors0);
          errors2 = (if email form \<noteq> [] \<and> \<not> regex_test email_pattern (email form)
                     then errors1 @ [(''email'', ''Please enter a valid email address'')]
                     else errors1)
      in (errors2, length errors2 = 0))"

text \<open>
  The shape in the words of the specification: the string is a local part, an at sign, a
  domain, a dot and a top-level part, each part a non-empty run of characters that are
  not white space. \<open>has_shape_part\<close> holds of a string that has a piece of that shape.
\<close>

definition local_domain_tld_shape :: "string \<Rightarrow> bool" where
  "local_domain_tld_shape s \<longleftrightarrow>
     (\<exists>local domain tld.
        s = local @ ''@'' @ domain @ ''.'' @ tld \<and>
        local \<noteq> [] \<and> domain \<noteq> [] \<and> tld \<noteq> [] \<and>
        list_all (\<lambda>c. \<not> is_space c) (local @ domain @ tld))"

definition has_shape_part :: "string \<Rightarrow> bool" where
  "has_shape_part s \<longleftrightarrow> (\<exists>pre m post. s = pre @ m @ post \<and> local_domain_tld_shape m)"

section \<open>Translation lookup\<close>

text \<open>
  The values a lookup can meet. The table holds objects and strings; everything else
  comes from the language runtime when a key names a property that an object does not
  own or a property of a string, a number or a function (for instance \<open>length\<close> or
  \<open>constructor\<close>). Such a read gives a value or throws, as an inherited accessor may.
  The runtime is a parameter \<open>rt\<close> of the model: the outcome of such a read. An object
  lists its own properties, each key once.
\<close>

datatype jsval =
    Undefined
  | Null
  | JBool bool
  | JNum number
  | JStr string
  | JObj "(string \<times> jsval) list"
  | JFun nat



fun truthy :: "jsval \<Rightarrow> bool" where
  "truthy Undefined = False"
| "truthy Null = False"
| "truthy (JBool b) = b"
| "truthy (JNum n) = num_truthy n"
| "truthy (JStr s) = (s \<noteq> [])"
| "truthy (JObj ps) = True"
| "truthy (JFun f) = True"











section \<open>Properties of the lock screen\<close>

subsection \<open>Stores, strings and single submissions\<close>

lemmas storage_defs = getItem_def setItem_def removeItem_def emptyStorage_def

lemma digits_nonempty: "digits n \<noteq> []"
  by (subst digits.simps) simp

lemma num_toString_nonempty: "num_toString x \<noteq> []"
  by (cases x) (simp_all add: num_toString.simps digits_nonempty)

lemma handleSubmit_locked: "isLocked g \<Longrightarrow> handleSubmit now g = (False, g)"
  by (simp add: handleSubmit_def)

lemma handleSubmit_blank: "trim (code g) = [] \<Longrightarrow> handleSubmit now g = (False, g)"
  by (simp add: handleSubmit_def)

lemma trim_secret: "trim secret \<noteq> []"
  by (simp add: trim_def secret_def is_space_def)

lemma handleSubmit_secret:
  "\<not> isLocked g \<Longrightarrow> code g = secret \<Longrightarrow>
   handleSubmit now g =
     (True, g\<lparr>sessionStorage := (sessionStorage g)(''secretUnlocked'' \<mapsto> ''true''),
              localStorage := (localStorage g)(''secretAttempts'' := None)\<rparr>)"
  by (simp add: handleSubmit_def trim_secret storage_defs)

lemma submit_wrong_low:
  assumes "\<not> isLocked g" "wrong_code c" "attempts g = Num n" "n + 1 < 5"
  shows "submit c now g =
     (False, g\<lparr>code := [], attempts := Num (n + 1),
               localStorage := (localStorage g)(''secretAttempts'' \<mapsto> num_toString (Num (n + 1)))\<rparr>)"
  using assms by (simp add: submit_def handleSubmit_def wrong_code_def storage_defs Let_def)

lemma submit_wrong_high:
  assumes "\<not> isLocked g" "wrong_code c" "attempts g = Num n" "5 \<le> n + 1"
  shows "submit c now g =
     (False, g\<lparr>code := [], attempts := Num (n + 1), isLocked := True,
               lockUntil := Some (Num (now + 900000)),
               localStorage := (localStorage g)
                 (''secretAttempts'' \<mapsto> num_toString (Num (n + 1)),
                  ''secretLockUntil'' \<mapsto> num_toString (Num (now + 900000)))\<rparr>)"
  using assms by (simp add: submit_def handleSubmit_def wrong_code_def storage_defs Let_def lockMillis_def)

lemma submits_wrong_run:
  assumes "\<forall>x \<in> set subs. wrong_code (fst x)"
      and "\<not> isLocked g" "attempts g = Num n" "n + int (length subs) \<le> 4"
  shows "submits subs g =
           (if subs = [] then g else
            g\<lparr>code := [], attempts := Num (n + int (length subs)),
              localStorage := (localStorage g)
                (''secretAttempts'' \<mapsto> num_toString (Num (n + int (length subs))))\<rparr>)"
  using assms
proof (induction subs arbitrary: g n)
  case Nil
  then show ?case by simp
next
  case (Cons x rest)
  obtain c now where x: "x = (c, now)" by (cases x)
  let ?g1 = "g\<lparr>code := [], attempts := Num (n + 1),
               localStorage := (localStorage g)(''secretAttempts'' \<mapsto> num_toString (Num (n + 1)))\<rparr>"
  have w: "wrong_code c" using Cons.prems(1) x by simp
  have low: "n + 1 < 5" using Cons.prems(4) by simp
  have g1: "submit c now g = (False, ?g1)"
    by (rule submit_wrong_low [OF Cons.prems(2) w Cons.prems(3) low])
  have ih: "submits rest ?g1 =
           (if rest = [] then ?g1 else
            ?g1\<lparr>code := [], attempts := Num (n + 1 + int (length rest)),
              localStorage := (localStorage ?g1)
                (''secretAttempts'' \<mapsto> num_toString (Num (n + 1 + int (length rest))))\<rparr>)"
    by (rule Cons.IH) (use Cons.prems in auto)
  have "submits (x # rest) g = submits rest ?g1" by (simp add: x g1)
  also note ih
  finally show ?case
    by (cases "rest = []") (simp_all add: add.assoc)
qed

lemma fresh_gate_eq:
  "fresh_gate = \<lparr>code = [], attempts = Num 0, isLocked = False, lockUntil = None,
                localStorage = emptyStorage, sessionStorage = emptyStorage\<rparr>"
  by (simp add: fresh_gate_def initialize_def storage_defs)

lemma wrong_zeros: "wrong_code ''000000000000''"
  by (simp add: wrong_code_def trim_def is_space_def secret_def)

subsection \<open>Wrong submissions\<close>

text \<open>
  Claim C1. A wrong submission is one whose code is not blank, so that it passes the guard
  at the head of \<open>handleSubmit\<close>, and is not the secret. From a state with
  \<open>attempts = 0\<close> and no lockout, a run of at most four wrong submissions leaves
  \<open>attempts\<close> equal to the number of submissions, with no lockout in memory and the
  stored lock time untouched. The next wrong submission returns
  \<open>granted = false\<close>, raises \<open>attempts\<close> by exactly one and stores the new value under
  \<open>secretAttempts\<close>; when it is the fifth, it locks the screen, sets \<open>lockUntil\<close> to
  \<open>now + 900000\<close> and stores that under \<open>secretLockUntil\<close>.
\<close>

theorem wrong_submissions_count_then_lock:
  assumes "attempts g = Num 0" and "\<not> isLocked g" and "lockUntil g = None"
      and "\<forall>x \<in> set subs. wrong_code (fst x)"
      and "length subs \<le> 4"
      and "wrong_code c"
  shows "attempts (submits subs g) = Num (int (length subs))
       \<and> \<not> isLocked (submits subs g) \<and> lockUntil (submits subs g) = None
       \<and> getItem (localStorage (submits subs g)) ''secretLockUntil''
           = getItem (localStorage g) ''secretLockUntil''
       \<and> (subs \<noteq> [] \<longrightarrow> getItem (localStorage (submits subs g)) ''secretAttempts''
           = Some (num_toString (Num (int (length subs)))))
       \<and> fst (submit c now (submits subs g)) = False
       \<and> attempts (snd (submit c now (submits subs g))) = Num (int (length subs) + 1)
       \<and> getItem (localStorage (snd (submit c now (submits subs g)))) ''secretAttempts''
           = Some (num_toString (Num (int (length subs) + 1)))
       \<and> (length subs < 4 \<longrightarrow>
             \<not> isLocked (snd (submit c now (submits subs g)))
           \<and> lockUntil (snd (submit c now (submits subs g))) = None)
       \<and> (length subs = 4 \<longrightarrow>
             isLocked (snd (submit c now (submits subs g)))
           \<and> lockUntil (snd (submit c now (submits subs g))) = Some (Num (now + 900000))
           \<and> getItem (localStorage (snd (submit c now (submits subs g)))) ''secretLockUntil''
               = Some (num_toString (Num (now + 900000))))"
proof -
  let ?k = "int (length subs)"
  let ?h = "submits subs g"
  have bound: "0 + ?k \<le> 4" using assms(5) by simp
  have run: "?h = (if subs = [] then g else
            g\<lparr>code := [], attempts := Num (0 + ?k),
              localStorage := (localStorage g)
                (''secretAttempts'' \<mapsto> num_toString (Num (0 + ?k)))\<rparr>)"
    by (rule submits_wrong_run [OF assms(4) assms(2) assms(1) bound])
  have a: "attempts ?h = Num ?k" using run assms(1) by (cases "subs = []") simp_all
  have l: "\<not> isLocked ?h" using run assms(2) by (cases "subs = []") simp_all
  have u: "lockUntil ?h = None" using run assms(3) by (cases "subs = []") simp_all
  have s1: "getItem (localStorage ?h) ''secretLockUntil'' = getItem (localStorage g) ''secretLockUntil''"
    using run by (cases "subs = []") (simp_all add: getItem_def)
  have s2: "subs \<noteq> [] \<longrightarrow> getItem (localStorage ?h) ''secretAttempts'' = Some (num_toString (Num ?k))"
    using run by (simp add: getItem_def)
  have low: "length subs < 4 \<Longrightarrow> submit c now ?h =
     (False, ?h\<lparr>code := [], attempts := Num (?k + 1),
               localStorage := (localStorage ?h)(''secretAttempts'' \<mapsto> num_toString (Num (?k + 1)))\<rparr>)"
    by (rule submit_wrong_low [OF l assms(6) a]) simp
  have high: "length subs = 4 \<Longrightarrow> submit c now ?h =
     (False, ?h\<lparr>code := [], attempts := Num (?k + 1), isLocked := True,
               lockUntil := Some (Num (now + 900000)),
               localStorage := (localStorage ?h)
                 (''secretAttempts'' \<mapsto> num_toString (Num (?k + 1)),
                  ''secretLockUntil'' \<mapsto> num_toString (Num (now + 900000)))\<rparr>)"
    by (rule submit_wrong_high [OF l assms(6) a]) simp
  consider "length subs < 4" | "length subs = 4" using assms(5) by linarith
  then have step: "fst (submit c now ?h) = False
       \<and> attempts (snd (submit c now ?h)) = Num (?k + 1)
       \<and> getItem (localStorage (snd (submit c now ?h))) ''secretAttempts''
           = Some (num_toString (Num (?k + 1)))
       \<and> (length subs < 4 \<longrightarrow>
             \<not> isLocked (snd (submit c now ?h)) \<and> lockUntil (snd (submit c now ?h)) = None)
       \<and> (length subs = 4 \<longrightarrow>
             isLocked (snd (submit c now ?h))
           \<and> lockUntil (snd (submit c now ?h)) = Some (Num (now + 900000))
           \<and> getItem (localStorage (snd (submit c now ?h))) ''secretLockUntil''
               = Some (num_toString (Num (now + 900000))))"
  proof cases
    case 1
    show ?thesis using 1 l u by (simp add: low [OF 1] getItem_def)
  next
    case 2
    show ?thesis using 2 by (simp add: high [OF 2] getItem_def)
  qed
  from a l u s1 s2 step show ?thesis by blast
qed

theorem wrong_submissions_witness:
  "attempts fresh_gate = Num 0 \<and> \<not> isLocked fresh_gate \<and> lockUntil fresh_gate = None
   \<and> list_all (\<lambda>x. wrong_code (fst x)) four_wrong \<and> length four_wrong \<le> 4
   \<and> wrong_code ''000000000000''
   \<and> attempts (submits four_wrong fresh_gate) = Num 4
   \<and> \<not> isLocked (submits four_wrong fresh_gate)
   \<and> fst (submit ''000000000000'' 5000 (submits four_wrong fresh_gate)) = False
   \<and> attempts (snd (submit ''000000000000'' 5000 (submits four_wrong fresh_gate))) = Num 5
   \<and> lockUntil (snd (submit ''000000000000'' 5000 (submits four_wrong fresh_gate)))
       = Some (Num 905000)
   \<and> getItem (localStorage (snd (submit ''000000000000'' 5000 (submits four_wrong fresh_gate))))
       ''secretLockUntil'' = Some ''905000''"
proof -
  have h1: "attempts fresh_gate = Num 0" by (simp add: fresh_gate_eq)
  have h2: "\<not> isLocked fresh_gate" by (simp add: fresh_gate_eq)
  have h3: "lockUntil fresh_gate = None" by (simp add: fresh_gate_eq)
  have h4: "\<forall>x \<in> set four_wrong. wrong_code (fst x)" by (simp add: four_wrong_def wrong_zeros)
  have h5: "length four_wrong \<le> 4" by (simp add: four_wrong_def)
  have len: "length four_wrong = 4" by (simp add: four_wrong_def)
  have d: "num_toString (Num 905000) = ''905000''" by (simp add: num_toString.simps digits.simps digit_char_def)
  show ?thesis
    using wrong_submissions_count_then_lock [OF h1 h2 h3 h4 h5 wrong_zeros, of 5000] h1 h2 h3 h4 h5 wrong_zeros
    by (simp add: len d list_all_iff)
qed

subsection \<open>Lock flag and lock time stay in step\<close>

lemma gate_wf_initialize: "0 \<le> now \<Longrightarrow> gate_wf (initialize now ls ss)"
proof -
  assume n: "0 \<le> now"
  have t: "\<And>x. num_lt (Num now) x \<Longrightarrow> num_truthy x"
    using n by (case_tac x) auto
  show ?thesis
    by (auto simp: gate_wf_def initialize_def Let_def t split: option.splits)
qed

lemma gate_wf_submit: "gate_wf g \<Longrightarrow> 0 \<le> now \<Longrightarrow> gate_wf (snd (submit c now g))"
  by (auto simp: gate_wf_def submit_def handleSubmit_def Let_def lockMillis_def
           split: option.splits)

lemma gate_wf_tick: "gate_wf g \<Longrightarrow> gate_wf (tick now g)"
  by (auto simp: gate_wf_def tick_def)

lemma reachable_wf: "reachable g \<Longrightarrow> gate_wf g"
  by (induction rule: reachable.induct)
     (simp_all add: gate_wf_initialize gate_wf_submit gate_wf_tick)

lemma wf_locked: "gate_wf g \<Longrightarrow> lockUntil g = Some l \<Longrightarrow> isLocked g"
  by (simp add: gate_wf_def)

text \<open>
  Claim C2. In a state whose lock time is set and still ahead of \<open>now\<close>, \<open>handleSubmit\<close>
  returns \<open>granted = false\<close> and the very same state, whatever the code cell holds, the
  secret included: no attempt is counted and neither store is written. Typing a code \<open>c\<close>
  first changes the code cell and nothing else.
\<close>

theorem locked_submit_rejected:
  assumes "gate_wf g" and "lockUntil g = Some (Num until)" and "now < until"
  shows "handleSubmit now g = (False, g) \<and> submit c now g = (False, g\<lparr>code := c\<rparr>)"
proof -
  have "isLocked g" using assms(1,2) by (rule wf_locked)
  then show ?thesis by (simp add: submit_def handleSubmit_locked)
qed

subsection \<open>The lock screen after four and after five wrong codes\<close>

lemma four_wrong_gate_eq:
  "submits four_wrong fresh_gate =
     \<lparr>code = [], attempts = Num 4, isLocked = False, lockUntil = None,
      localStorage = [''secretAttempts'' \<mapsto> ''4''], sessionStorage = Map.empty\<rparr>"
proof -
  have len: "length four_wrong = 4" by (simp add: four_wrong_def)
  have w: "\<forall>x \<in> set four_wrong. wrong_code (fst x)" by (simp add: four_wrong_def wrong_zeros)
  have "submits four_wrong fresh_gate =
          (if four_wrong = [] then fresh_gate else
           fresh_gate\<lparr>code := [], attempts := Num (0 + int (length four_wrong)),
              localStorage := (localStorage fresh_gate)
                (''secretAttempts'' \<mapsto> num_toString (Num (0 + int (length four_wrong))))\<rparr>)"
    by (rule submits_wrong_run [OF w]) (simp_all add: fresh_gate_eq len)
  moreover have "four_wrong \<noteq> []" using len by auto
  ultimately show ?thesis
    by (simp add: len fresh_gate_eq num_toString.simps digits.simps digit_char_def storage_defs)
qed

lemma locked_gate_eq:
  "locked_gate = \<lparr>code = [], attempts = Num 5, isLocked = True, lockUntil = Some (Num 905000),
     localStorage = [''secretAttempts'' \<mapsto> ''5'', ''secretLockUntil'' \<mapsto> ''905000''],
     sessionStorage = Map.empty\<rparr>"
proof -
  let ?g = "submits four_wrong fresh_gate"
  have b: "submit ''000000000000'' 5000 ?g =
     (False, ?g\<lparr>code := [], attempts := Num (4 + 1), isLocked := True,
               lockUntil := Some (Num (5000 + 900000)),
               localStorage := (localStorage ?g)
                 (''secretAttempts'' \<mapsto> num_toString (Num (4 + 1)),
                  ''secretLockUntil'' \<mapsto> num_toString (Num (5000 + 900000)))\<rparr>)"
    by (rule submit_wrong_high) (simp_all add: four_wrong_gate_eq wrong_zeros)
  show ?thesis
    unfolding locked_gate_def b
    by (simp add: four_wrong_gate_eq num_toString.simps digits.simps digit_char_def)
qed

theorem locked_submit_rejected_witness:
  "gate_wf (locked_gate\<lparr>code := secret\<rparr>)
   \<and> lockUntil (locked_gate\<lparr>code := secret\<rparr>) = Some (Num 905000) \<and> (6000::int) < 905000
   \<and> handleSubmit 6000 (locked_gate\<lparr>code := secret\<rparr>) = (False, locked_gate\<lparr>code := secret\<rparr>)
   \<and> submit secret 6000 locked_gate = (False, locked_gate\<lparr>code := secret\<rparr>)"
proof -
  have w: "gate_wf (locked_gate\<lparr>code := secret\<rparr>)" by (simp add: gate_wf_def locked_gate_eq)
  have u: "lockUntil (locked_gate\<lparr>code := secret\<rparr>) = Some (Num 905000)" by (simp add: locked_gate_eq)
  have n: "(6000::int) < 905000" by simp
  have s: "submit secret 6000 locked_gate = handleSubmit 6000 (locked_gate\<lparr>code := secret\<rparr>)"
    by (simp add: submit_def)
  show ?thesis
    using locked_submit_rejected [OF w u n, of secret] w u s by simp
qed

subsection \<open>The lockout timer\<close>

text \<open>
  Claim C6. When the lock time is set and \<open>now\<close> has reached it, \<open>tick\<close> clears the lock
  flag, the lock time and the counter and removes \<open>secretLockUntil\<close> and \<open>secretAttempts\<close>
  from local storage; in every other case \<open>tick\<close> returns the state as it was.
\<close>

theorem tick_clears_exactly_on_expiry:
  assumes "gate_wf g"
  shows "if \<exists>until. lockUntil g = Some (Num until) \<and> until \<le> now
         then tick now g = g\<lparr>isLocked := False, lockUntil := None, attempts := Num 0,
                localStorage := (localStorage g)(''secretLockUntil'' := None, ''secretAttempts'' := None)\<rparr>
         else tick now g = g"
proof (cases "lockUntil g")
  case None
  then show ?thesis by (simp add: tick_def lock_expired_def)
next
  case (Some l)
  then have locked: "isLocked g" and truthy: "num_truthy l"
    using assms by (simp_all add: gate_wf_def)
  then obtain until where l: "l = Num until" by (cases l) simp_all
  show ?thesis
    using Some locked truthy by (simp add: l tick_def lock_expired_def storage_defs)
qed

theorem tick_clears_witness:
  "gate_wf locked_gate
   \<and> tick 905000 locked_gate =
       \<lparr>code = [], attempts = Num 0, isLocked = False, lockUntil = None,
        localStorage = Map.empty, sessionStorage = Map.empty\<rparr>
   \<and> tick 904999 locked_gate = locked_gate"
proof -
  have w: "gate_wf locked_gate" by (simp add: gate_wf_def locked_gate_eq)
  show ?thesis
    using tick_clears_exactly_on_expiry [OF w, of 905000] tick_clears_exactly_on_expiry [OF w, of 904999] w
    by (simp add: locked_gate_eq)
qed

subsection \<open>A granted submission\<close>

lemma three_wrong_gate_eq:
  "three_wrong_gate =
     \<lparr>code = [], attempts = Num 3, isLocked = False, lockUntil = None,
      localStorage = [''secretAttempts'' \<mapsto> ''3''], sessionStorage = Map.empty\<rparr>"
proof -
  let ?subs = "three_wrong"
  have len: "length ?subs = 3" by (simp add: three_wrong_def)
  have w: "\<forall>x \<in> set ?subs. wrong_code (fst x)" by (simp add: three_wrong_def wrong_zeros)
  have "submits ?subs fresh_gate =
          (if ?subs = [] then fresh_gate else
           fresh_gate\<lparr>code := [], attempts := Num (0 + int (length ?subs)),
              localStorage := (localStorage fresh_gate)
                (''secretAttempts'' \<mapsto> num_toString (Num (0 + int (length ?subs))))\<rparr>)"
    by (rule submits_wrong_run [OF w]) (simp_all add: fresh_gate_eq len)
  moreover have "?subs \<noteq> []" using len by auto
  ultimately show ?thesis
    unfolding three_wrong_gate_def
    by (simp add: len fresh_gate_eq num_toString.simps digits.simps digit_char_def storage_defs)
qed

lemma initialize_no_counter:
  "getItem ls ''secretAttempts'' = None \<Longrightarrow> attempts (initialize now ls ss) = Num 0"
  by (simp add: initialize_def Let_def split: option.splits)

lemma initialize_nothing_stored:
  assumes "getItem ls ''secretAttempts'' = None"
      and "getItem ls ''secretLockUntil'' = None \<or> getItem ls ''secretLockUntil'' = Some []"
  shows "initialize now ls ss =
           \<lparr>code = [], attempts = Num 0, isLocked = False, lockUntil = None,
            localStorage = ls, sessionStorage = ss\<rparr>"
  using assms by (auto simp: initialize_def Let_def)

lemma lock_store_wf_initialize: "lock_store_wf (initialize now ls ss)"
  by (auto simp: lock_store_wf_def initialize_def Let_def storage_defs split: option.splits)

lemma lock_store_wf_submit: "lock_store_wf g \<Longrightarrow> lock_store_wf (snd (submit c now g))"
  by (auto simp: lock_store_wf_def submit_def handleSubmit_def Let_def storage_defs)

lemma lock_store_wf_tick: "lock_store_wf g \<Longrightarrow> lock_store_wf (tick now g)"
  by (auto simp: lock_store_wf_def tick_def storage_defs)

lemma reachable_lock_store: "reachable g \<Longrightarrow> lock_store_wf g"
  by (induction rule: reachable.induct)
     (simp_all add: lock_store_wf_initialize lock_store_wf_submit lock_store_wf_tick)

lemma submit_secret:
  assumes "\<not> isLocked g"
  shows "submit secret now g =
     (True, g\<lparr>code := secret,
              sessionStorage := (sessionStorage g)(''secretUnlocked'' \<mapsto> ''true''),
              localStorage := (localStorage g)(''secretAttempts'' := None)\<rparr>)"
  using assms by (simp add: submit_def handleSubmit_def trim_secret storage_defs)

text \<open>
  Claim C3. In an unlocked state a submission is granted exactly when the submitted code
  equals the secret, the twelve-digit string \<open>080607012025\<close>, as a whole. A grant returns
  \<open>granted = true\<close>, stores \<open>secretUnlocked = true\<close> in session storage and removes
  \<open>secretAttempts\<close> from local storage. \<open>onUnlock\<close> sets the shell's \<open>secretUnlocked\<close> flag,
  and the shell shows the garden in place of the lock screen. The lock screen that is
  mounted next, at any time, over the stores the grant left, starts with \<open>attempts = 0\<close>
  and no lockout.
\<close>

theorem grant_iff_secret:
  assumes "\<not> isLocked g" and "lock_store_wf g"
  shows "(fst (submit c now g) \<longleftrightarrow> c = secret)
       \<and> secret = ''080607012025'' \<and> length secret = 12
       \<and> list_all (\<lambda>d. d \<in> set ''0123456789'') secret
       \<and> (c = secret \<longrightarrow>
             fst (submit c now g)
           \<and> getItem (sessionStorage (snd (submit c now g))) ''secretUnlocked'' = Some ''true''
           \<and> localStorage (snd (submit c now g)) = removeItem ''secretAttempts'' (localStorage g)
           \<and> getItem (localStorage (snd (submit c now g))) ''secretAttempts'' = None
           \<and> secretUnlocked (handleSecretUnlock a)
           \<and> renderCurrentPage (handleSecretUnlock a) = SecretGarden
           \<and> initialize later (localStorage (snd (submit c now g)))
                 (sessionStorage (snd (submit c now g))) =
               \<lparr>code = [], attempts = Num 0, isLocked = False, lockUntil = None,
                localStorage = localStorage (snd (submit c now g)),
                sessionStorage = sessionStorage (snd (submit c now g))\<rparr>)"
proof -
  have iff: "fst (submit c now g) \<longleftrightarrow> c = secret"
    using assms(1) by (simp add: submit_def handleSubmit_def Let_def trim_secret)
  have sec: "secret = ''080607012025'' \<and> length secret = 12
       \<and> list_all (\<lambda>d. d \<in> set ''0123456789'') secret"
    by (simp add: secret_def)
  have grant: "c = secret \<longrightarrow>
             fst (submit c now g)
           \<and> getItem (sessionStorage (snd (submit c now g))) ''secretUnlocked'' = Some ''true''
           \<and> localStorage (snd (submit c now g)) = removeItem ''secretAttempts'' (localStorage g)
           \<and> getItem (localStorage (snd (submit c now g))) ''secretAttempts'' = None
           \<and> secretUnlocked (handleSecretUnlock a)
           \<and> renderCurrentPage (handleSecretUnlock a) = SecretGarden
           \<and> initialize later (localStorage (snd (submit c now g)))
                 (sessionStorage (snd (submit c now g))) =
               \<lparr>code = [], attempts = Num 0, isLocked = False, lockUntil = None,
                localStorage = localStorage (snd (submit c now g)),
                sessionStorage = sessionStorage (snd (submit c now g))\<rparr>"
  proof
    assume c: "c = secret"
    let ?g' = "snd (submit c now g)"
    have h: "submit c now g =
       (True, g\<lparr>code := secret,
              sessionStorage := (sessionStorage g)(''secretUnlocked'' \<mapsto> ''true''),
              localStorage := (localStorage g)(''secretAttempts'' := None)\<rparr>)"
      unfolding c by (rule submit_secret [OF assms(1)])
    have f: "fst (submit c now g)" by (simp add: h)
    have s1: "getItem (sessionStorage ?g') ''secretUnlocked'' = Some ''true''"
      by (simp add: h getItem_def)
    have s2: "localStorage ?g' = removeItem ''secretAttempts'' (localStorage g)"
      by (simp add: h removeItem_def)
    have s3: "getItem (localStorage ?g') ''secretAttempts'' = None"
      by (simp add: h getItem_def)
    have s4: "getItem (localStorage ?g') ''secretLockUntil'' = None
            \<or> getItem (localStorage ?g') ''secretLockUntil'' = Some []"
      using assms by (simp add: h getItem_def lock_store_wf_def)
    have u: "secretUnlocked (handleSecretUnlock a)" by (simp add: handleSecretUnlock_def)
    have r: "renderCurrentPage (handleSecretUnlock a) = SecretGarden"
      by (simp add: handleSecretUnlock_def renderCurrentPage_def)
    have i: "initialize later (localStorage ?g') (sessionStorage ?g') =
               \<lparr>code = [], attempts = Num 0, isLocked = False, lockUntil = None,
                localStorage = localStorage ?g', sessionStorage = sessionStorage ?g'\<rparr>"
      by (rule initialize_nothing_stored [OF s3 s4])
    from f s1 s2 s3 u r i show "fst (submit c now g)
           \<and> getItem (sessionStorage (snd (submit c now g))) ''secretUnlocked'' = Some ''true''
           \<and> localStorage (snd (submit c now g)) = removeItem ''secretAttempts'' (localStorage g)
           \<and> getItem (localStorage (snd (submit c now g))) ''secretAttempts'' = None
           \<and> secretUnlocked (handleSecretUnlock a)
           \<and> renderCurrentPage (handleSecretUnlock a) = SecretGarden
           \<and> initialize later (localStorage (snd (submit c now g)))
                 (sessionStorage (snd (submit c now g))) =
               \<lparr>code = [], attempts = Num 0, isLocked = False, lockUntil = None,
                localStorage = localStorage (snd (submit c now g)),
                sessionStorage = sessionStorage (snd (submit c now g))\<rparr>"
      by blast
  qed
  from iff sec grant show ?thesis by blast
qed

theorem grant_iff_secret_witness:
  "\<not> isLocked three_wrong_gate \<and> lock_store_wf three_wrong_gate
   \<and> getItem (localStorage three_wrong_gate) ''secretAttempts'' = Some ''3''
   \<and> fst (submit secret 4000 three_wrong_gate)
   \<and> \<not> fst (submit ''080607012025 '' 4000 three_wrong_gate)
   \<and> getItem (sessionStorage (snd (submit secret 4000 three_wrong_gate)))
        ''secretUnlocked'' = Some ''true''
   \<and> getItem (localStorage (snd (submit secret 4000 three_wrong_gate)))
        ''secretAttempts'' = None
   \<and> renderCurrentPage (handleSecretUnlock app_start) = SecretGarden
   \<and> attempts (initialize 5000 (localStorage (snd (submit secret 4000 three_wrong_gate)))
        (sessionStorage (snd (submit secret 4000 three_wrong_gate)))) = Num 0
   \<and> \<not> isLocked (initialize 5000 (localStorage (snd (submit secret 4000 three_wrong_gate)))
        (sessionStorage (snd (submit secret 4000 three_wrong_gate))))"
proof -
  let ?g = "three_wrong_gate"
  let ?g' = "snd (submit secret 4000 three_wrong_gate)"
  have n: "\<not> isLocked ?g" by (simp add: three_wrong_gate_eq)
  have w: "lock_store_wf ?g" by (simp add: lock_store_wf_def three_wrong_gate_eq getItem_def)
  have k: "getItem (localStorage ?g) ''secretAttempts'' = Some ''3''"
    by (simp add: three_wrong_gate_eq getItem_def)
  have ne: "''080607012025 '' \<noteq> secret" by (simp add: secret_def)
  note t1 = grant_iff_secret [OF n w, where c = secret and now = 4000 and a = app_start
      and later = 5000]
  note t2 = grant_iff_secret [OF n w, where c = "''080607012025 ''" and now = 4000
      and a = app_start and later = 5000]
  have g1: "fst (submit secret 4000 ?g)" using t1 by blast
  have g2: "\<not> fst (submit ''080607012025 '' 4000 ?g)" using t2 ne by blast
  have s1: "getItem (sessionStorage ?g') ''secretUnlocked'' = Some ''true''" using t1 by blast
  have s2: "getItem (localStorage ?g') ''secretAttempts'' = None" using t1 by blast
  have r: "renderCurrentPage (handleSecretUnlock app_start) = SecretGarden" using t1 by blast
  have i: "initialize 5000 (localStorage ?g') (sessionStorage ?g') =
               \<lparr>code = [], attempts = Num 0, isLocked = False, lockUntil = None,
                localStorage = localStorage ?g', sessionStorage = sessionStorage ?g'\<rparr>"
    using t1 by blast
  have i1: "attempts (initialize 5000 (localStorage ?g') (sessionStorage ?g')) = Num 0"
    by (simp only: i gate.simps)
  have i2: "\<not> isLocked (initialize 5000 (localStorage ?g') (sessionStorage ?g'))"
    by (simp only: i gate.simps simp_thms)
  from n w k g1 g2 s1 s2 r i1 i2 show ?thesis by blast
qed

subsection \<open>Mounting after the lock has run out\<close>

text \<open>
  Claim C4. The lock screen is mounted at 1000000 over the stores that five wrong codes
  left behind, whose lock ran out at 905000: the stored lock time is removed, and the
  counter is loaded as 5 and stays in local storage.
\<close>

theorem initialize_expired_lock_keeps_attempts:
  "stored_lock_expired 1000000 (localStorage locked_gate)
   \<and> initialize 1000000 (localStorage locked_gate) (sessionStorage locked_gate) =
       \<lparr>code = [], attempts = Num 5, isLocked = False, lockUntil = None,
        localStorage = [''secretAttempts'' \<mapsto> ''5''], sessionStorage = Map.empty\<rparr>"
  by (simp add: locked_gate_eq stored_lock_expired_def initialize_def storage_defs
                parseInt_def trimStart_def parse_unsigned_def parse_digits_def digits_value_def
                digit_of_def is_space_def fun_upd_twist)

subsection \<open>Reading back what was stored\<close>

lemma digit_char_cases:
  assumes "\<And>c. c \<in> set ''0123456789'' \<Longrightarrow> P c"
  shows "P (digit_char d)"
proof -
  have "d mod 10 < length ''0123456789''" by simp
  then have "''0123456789'' ! (d mod 10) \<in> set ''0123456789''" by (rule nth_mem)
  then show ?thesis unfolding digit_char_def by (rule assms)
qed

lemma digit_of_digit_char: "digit_of (digit_char d) = d mod 10"
proof -
  have "d mod 10 = 0 \<or> d mod 10 = 1 \<or> d mod 10 = 2 \<or> d mod 10 = 3 \<or> d mod 10 = 4
       \<or> d mod 10 = 5 \<or> d mod 10 = 6 \<or> d mod 10 = 7 \<or> d mod 10 = 8 \<or> d mod 10 = 9"
    by presburger
  then show ?thesis
    by (elim disjE) (simp_all add: digit_char_def digit_of_def)
qed

lemma digit_char_plain:
  "\<not> is_space (digit_char d) \<and> digit_char d \<noteq> CHR ''-'' \<and> digit_char d \<noteq> CHR ''+''
   \<and> digit_char d \<noteq> CHR ''x'' \<and> digit_char d \<noteq> CHR ''X'' \<and> digit_of (digit_char d) < 10"
  by (rule digit_char_cases) (auto simp: is_space_def digit_of_def)

lemma digits_all_decimal: "\<forall>c \<in> set (digits n). digit_of c < 10 \<and> c \<noteq> CHR ''x'' \<and> c \<noteq> CHR ''X''"
proof (induction n rule: digits.induct)
  case (1 n)
  show ?case
  proof (cases "n < 10")
    case True
    then show ?thesis by (subst digits.simps) (simp add: digit_char_plain)
  next
    case False
    then show ?thesis using 1 by (subst digits.simps) (simp add: digit_char_plain)
  qed
qed

lemma digits_value_snoc: "digits_value r (ds @ [c]) = digits_value r ds * r + digit_of c"
  by (simp add: digits_value_def)

lemma digits_value_digits: "digits_value 10 (digits n) = n"
proof (induction n rule: digits.induct)
  case (1 n)
  show ?case
  proof (cases "n < 10")
    case True
    then show ?thesis
      by (subst digits.simps) (simp add: digits_value_def digit_of_digit_char)
  next
    case False
    then have "digits_value 10 (digits n) = digits_value 10 (digits (n div 10)) * 10 + n mod 10"
      by (subst digits.simps) (simp add: digits_value_snoc digit_of_digit_char)
    also have "\<dots> = n div 10 * 10 + n mod 10" using 1 False by simp
    finally show ?thesis by simp
  qed
qed

lemma hd_digits_plain:
  "\<not> is_space (hd (digits n)) \<and> hd (digits n) \<noteq> CHR ''-'' \<and> hd (digits n) \<noteq> CHR ''+''"
proof (induction n rule: digits.induct)
  case (1 n)
  show ?case
  proof (cases "n < 10")
    case True
    then have "digits n = [digit_char n]" by (subst digits.simps) simp
    then show ?thesis by (simp add: digit_char_plain)
  next
    case False
    then have "hd (digits n) = hd (digits (n div 10))"
      by (subst digits.simps) (simp add: digits_nonempty)
    then show ?thesis using 1 False by simp
  qed
qed

lemma parse_digits_digits: "parse_digits 10 (digits n) = Some n"
proof -
  have tw: "takeWhile (\<lambda>c. digit_of c < 10) (digits n) = digits n"
    using digits_all_decimal by simp
  show ?thesis
    by (simp only: parse_digits_def Let_def tw) (simp add: digits_nonempty digits_value_digits)
qed

lemma parse_unsigned_digits: "parse_unsigned (digits n) = Some n"
proof (cases "digits n")
  case Nil
  then show ?thesis using digits_nonempty by simp
next
  case (Cons c rest)
  show ?thesis
  proof (cases rest)
    case Nil
    then show ?thesis using Cons parse_digits_digits [of n] by (simp add: parse_unsigned_def)
  next
    case (Cons d rest')
    have "d \<in> set (digits n)" using \<open>digits n = c # rest\<close> Cons by simp
    then have "d \<noteq> CHR ''x'' \<and> d \<noteq> CHR ''X''" using digits_all_decimal by blast
    then show ?thesis
      using \<open>digits n = c # rest\<close> Cons parse_digits_digits [of n]
      by (simp add: parse_unsigned_def)
  qed
qed

lemma trimStart_digits: "trimStart (digits n) = digits n"
  using hd_digits_plain [of n] digits_nonempty [of n]
  by (cases "digits n") (simp_all add: trimStart_def)

lemma parseInt_toString: "parseInt (num_toString (Num i)) = Num i"
proof (cases "i < 0")
  case False
  then show ?thesis
    using hd_digits_plain [of "nat i"] digits_nonempty [of "nat i"]
    by (simp add: num_toString.simps parseInt_def trimStart_digits parse_unsigned_digits)
next
  case True
  then show ?thesis
    by (simp add: num_toString.simps parseInt_def trimStart_def is_space_def parse_unsigned_digits)
qed

subsection \<open>The counter along runs without an expired stored lock\<close>

lemma run_inv_fresh: "run_inv (initialize now emptyStorage ss)"
  by (simp add: run_inv_def initialize_def storage_defs)

lemma run_inv_tick: "run_inv g \<Longrightarrow> run_inv (tick now g)"
  by (auto simp: run_inv_def tick_def storage_defs)

lemma run_inv_code: "run_inv (g\<lparr>code := c\<rparr>) = run_inv g"
  by (simp add: run_inv_def)

lemma run_inv_submit:
  assumes "run_inv g"
  shows "run_inv (snd (submit c now g))"
proof -
  let ?g = "g\<lparr>code := c\<rparr>"
  have inv: "run_inv ?g" using assms by (simp only: run_inv_code)
  have s: "submit c now g = handleSubmit now ?g" by (simp add: submit_def)
  consider (rejected) "isLocked ?g \<or> trim (code ?g) = []"
    | (granted) "\<not> isLocked ?g" "trim (code ?g) \<noteq> []" "code ?g = secret"
    | (wrong) "\<not> isLocked ?g" "wrong_code c"
    by (auto simp: wrong_code_def)
  then show ?thesis
  proof cases
    case rejected
    then have "handleSubmit now ?g = (False, ?g)" by (simp add: handleSubmit_def)
    then show ?thesis using inv by (simp add: s)
  next
    case granted
    then have "handleSubmit now ?g =
        (True, ?g\<lparr>sessionStorage := (sessionStorage ?g)(''secretUnlocked'' \<mapsto> ''true''),
                  localStorage := (localStorage ?g)(''secretAttempts'' := None)\<rparr>)"
      by (simp add: handleSubmit_secret)
    then show ?thesis using inv granted(1) by (simp add: s run_inv_def getItem_def)
  next
    case wrong
    from inv wrong(1) obtain n where n: "attempts g = Num n" "0 \<le> n" "n \<le> 4"
      unfolding run_inv_def by force
    have unl: "\<not> isLocked g" using wrong(1) by simp
    show ?thesis
    proof (cases "n + 1 < 5")
      case True
      have "submit c now g = (False, g\<lparr>code := [], attempts := Num (n + 1),
               localStorage := (localStorage g)(''secretAttempts'' \<mapsto> num_toString (Num (n + 1)))\<rparr>)"
        by (rule submit_wrong_low [OF unl wrong(2) n(1) True])
      then show ?thesis
        using assms unl n True
        by (auto simp: run_inv_def getItem_def intro!: exI [of _ "n + 1"])
    next
      case False
      then have five: "5 \<le> n + 1" by simp
      have "submit c now g = (False, g\<lparr>code := [], attempts := Num (n + 1), isLocked := True,
               lockUntil := Some (Num (now + 900000)),
               localStorage := (localStorage g)
                 (''secretAttempts'' \<mapsto> num_toString (Num (n + 1)),
                  ''secretLockUntil'' \<mapsto> num_toString (Num (now + 900000)))\<rparr>)"
        by (rule submit_wrong_high [OF unl wrong(2) n(1) five])
      then show ?thesis
        using n five num_toString_nonempty [of "Num (now + 900000)"]
        by (auto simp: run_inv_def getItem_def intro!: exI [of _ "n + 1"])
    qed
  qed
qed

lemma run_inv_mount:
  assumes "run_inv g" and "\<not> stored_lock_expired now (localStorage g)"
  shows "run_inv (initialize now (localStorage g) (sessionStorage g))"
proof -
  let ?ls = "localStorage g"
  let ?i = "initialize now ?ls (sessionStorage g)"
  have st: "localStorage ?i = ?ls"
    using assms(2)
    by (auto simp: initialize_def stored_lock_expired_def Let_def split: option.splits)
  have lock: "isLocked ?i \<longleftrightarrow> isLocked g"
    using assms
    by (auto simp: initialize_def stored_lock_expired_def run_inv_def Let_def split: option.splits)
  have sync: "isLocked ?i \<longleftrightarrow> lockUntil ?i \<noteq> None"
    by (auto simp: initialize_def Let_def split: option.splits)
  have cnt: "attempts ?i =
      (case getItem ?ls ''secretAttempts'' of None \<Rightarrow> Num 0
       | Some v \<Rightarrow> if v = [] then Num 0 else parseInt v)"
    by (auto simp: initialize_def Let_def split: option.splits)
  from assms(1) have stored: "getItem ?ls ''secretAttempts'' = None \<or>
      (\<exists>k. 1 \<le> k \<and> k \<le> 5 \<and> (k = 5 \<longrightarrow> isLocked g) \<and>
           getItem ?ls ''secretAttempts'' = Some (num_toString (Num k)))"
    unfolding run_inv_def by blast
  then have a: "\<exists>n. attempts ?i = Num n \<and> 0 \<le> n \<and> n \<le> 5 \<and> (n = 5 \<longrightarrow> isLocked ?i)"
  proof
    assume "getItem ?ls ''secretAttempts'' = None"
    then show ?thesis by (simp add: cnt)
  next
    assume "\<exists>k. 1 \<le> k \<and> k \<le> 5 \<and> (k = 5 \<longrightarrow> isLocked g) \<and>
           getItem ?ls ''secretAttempts'' = Some (num_toString (Num k))"
    then obtain k where k: "1 \<le> k" "k \<le> 5" "k = 5 \<longrightarrow> isLocked g"
         "getItem ?ls ''secretAttempts'' = Some (num_toString (Num k))" by blast
    have "attempts ?i = Num k"
      using k(4) num_toString_nonempty [of "Num k"]
      by (simp add: cnt parseInt_toString)
    then show ?thesis using k(1,2,3) lock by auto
  qed
  have b: "isLocked g \<longrightarrow> (\<exists>v. getItem ?ls ''secretLockUntil'' = Some v \<and> v \<noteq> [])"
    and c: "\<not> isLocked g \<longrightarrow> getItem ?ls ''secretLockUntil'' = None"
    using assms(1) unfolding run_inv_def by blast+
  show ?thesis
    unfolding run_inv_def st lock
    using a sync stored b c lock by blast
qed

lemma gate_run_inv: "gate_run g \<Longrightarrow> run_inv g"
  by (induction rule: gate_run.induct)
     (simp_all add: run_inv_fresh run_inv_mount run_inv_submit run_inv_tick)

lemma run_inv_range: "run_inv g \<Longrightarrow> attempts_in_range g"
  by (auto simp: run_inv_def attempts_in_range_def)

lemma submit_counter_step:
  "attempts (snd (submit c now g)) = attempts g
   \<or> attempts (snd (submit c now g)) = num_add (attempts g) (Num 1)"
  by (simp add: submit_def handleSubmit_def Let_def)

lemma gate_run_submits:
  "gate_run g \<Longrightarrow> \<forall>x \<in> set subs. 0 \<le> snd x \<Longrightarrow> gate_run (submits subs g)"
proof (induction subs arbitrary: g)
  case Nil
  then show ?case by simp
next
  case (Cons x rest)
  obtain c now where x: "x = (c, now)" by (cases x)
  have "gate_run (snd (submit c now g))"
    using Cons.prems x by (auto intro: g_submit)
  then have "gate_run (submits rest (snd (submit c now g)))"
    using Cons.prems(2) by (intro Cons.IH) simp_all
  then show ?case by (simp add: x)
qed

lemma gate_run_locked_gate: "gate_run locked_gate"
proof -
  have "gate_run fresh_gate" unfolding fresh_gate_def by (rule g_fresh) simp
  then have "gate_run (submits four_wrong fresh_gate)"
    by (rule gate_run_submits) (simp add: four_wrong_def)
  then show ?thesis unfolding locked_gate_def by (rule g_submit) simp
qed

lemma reloaded_gate_eq:
  "reloaded_gate =
     \<lparr>code = [], attempts = Num 5, isLocked = False, lockUntil = None,
      localStorage = [''secretAttempts'' \<mapsto> ''5''], sessionStorage = Map.empty\<rparr>"
  by (simp add: reloaded_gate_def locked_gate_eq initialize_def storage_defs
                parseInt_def trimStart_def parse_unsigned_def parse_digits_def digits_value_def
                digit_of_def is_space_def fun_upd_twist)

text \<open>
  Claim C5. A run that leaves the range: five wrong codes lock the screen until 905000;
  the page is loaded again at 1000000, where the mount effect removes the stored lock
  time and loads the counter as 5 with no lock; one more wrong code gives
  \<open>attempts = 6\<close>.
\<close>

theorem attempts_exceed_five_after_reload:
  "attempts reloaded_gate = Num 5 \<and> \<not> isLocked reloaded_gate
   \<and> attempts over_gate = Num 6 \<and> \<not> attempts_in_range over_gate"
proof -
  have "submit ''000000000000'' 1001000 reloaded_gate =
     (False, reloaded_gate\<lparr>code := [], attempts := Num (5 + 1), isLocked := True,
               lockUntil := Some (Num (1001000 + 900000)),
               localStorage := (localStorage reloaded_gate)
                 (''secretAttempts'' \<mapsto> num_toString (Num (5 + 1)),
                  ''secretLockUntil'' \<mapsto> num_toString (Num (1001000 + 900000)))\<rparr>)"
    by (rule submit_wrong_high) (simp_all add: reloaded_gate_eq wrong_zeros)
  then have "attempts over_gate = Num 6" by (simp add: over_gate_def)
  then show ?thesis by (simp add: attempts_in_range_def reloaded_gate_eq)
qed

text \<open>
  Along every run that starts with nothing stored and goes through submissions, timer
  firings and mounts of the lock screen at which no stored lock has expired, the counter
  is an integer between 0 and 5. A timer firing at or after the lock time sets it to 0,
  and any other timer firing changes nothing. A submission leaves the counter cell as it
  was or adds 1; a granted one removes the stored counter, so that the lock screen
  mounted next starts from 0.
\<close>

lemma attempts_bounded_on_runs:
  assumes "gate_run g"
  shows "attempts_in_range g
       \<and> (lock_expired now g \<longrightarrow> attempts (tick now g) = Num 0)
       \<and> (\<not> lock_expired now g \<longrightarrow> tick now g = g)
       \<and> (attempts (snd (submit c now g)) = attempts g
          \<or> attempts (snd (submit c now g)) = num_add (attempts g) (Num 1))
       \<and> (attempts (snd (submit c now g)) = Num 0 \<longrightarrow> attempts g = Num 0)
       \<and> (fst (submit c now g) \<longrightarrow>
             getItem (localStorage (snd (submit c now g))) ''secretAttempts'' = None
           \<and> attempts (initialize later (localStorage (snd (submit c now g))) ss) = Num 0)"
proof -
  have inv: "run_inv g" using assms by (rule gate_run_inv)
  then have r: "attempts_in_range g" by (rule run_inv_range)
  from inv obtain n where n: "attempts g = Num n" "0 \<le> n" unfolding run_inv_def by blast
  have t1: "lock_expired now g \<longrightarrow> attempts (tick now g) = Num 0" by (simp add: tick_def)
  have t2: "\<not> lock_expired now g \<longrightarrow> tick now g = g" by (simp add: tick_def)
  note s = submit_counter_step [of c now g]
  have z: "attempts (snd (submit c now g)) = Num 0 \<longrightarrow> attempts g = Num 0"
    using s n by auto
  have gr: "fst (submit c now g) \<longrightarrow>
             getItem (localStorage (snd (submit c now g))) ''secretAttempts'' = None
           \<and> attempts (initialize later (localStorage (snd (submit c now g))) ss) = Num 0"
  proof
    assume f: "fst (submit c now g)"
    then have "getItem (localStorage (snd (submit c now g))) ''secretAttempts'' = None"
      by (auto simp: submit_def handleSubmit_def Let_def storage_defs split: if_splits)
    then show "getItem (localStorage (snd (submit c now g))) ''secretAttempts'' = None
           \<and> attempts (initialize later (localStorage (snd (submit c now g))) ss) = Num 0"
      by (simp add: initialize_no_counter)
  qed
  from r t1 t2 s z gr show ?thesis by blast
qed

lemma attempts_bounded_example:
  "gate_run locked_gate \<and> attempts_in_range locked_gate \<and> attempts locked_gate = Num 5
   \<and> lock_expired 905000 locked_gate \<and> attempts (tick 905000 locked_gate) = Num 0
   \<and> \<not> lock_expired 904999 locked_gate \<and> tick 904999 locked_gate = locked_gate
   \<and> gate_run three_wrong_gate \<and> fst (submit secret 4000 three_wrong_gate)
   \<and> getItem (localStorage (snd (submit secret 4000 three_wrong_gate))) ''secretAttempts'' = None
   \<and> attempts (initialize 5000 (localStorage (snd (submit secret 4000 three_wrong_gate)))
        emptyStorage) = Num 0"
proof -
  note run = gate_run_locked_gate
  have run3: "gate_run three_wrong_gate"
  proof -
    have "gate_run fresh_gate" unfolding fresh_gate_def by (rule g_fresh) simp
    then show ?thesis unfolding three_wrong_gate_def
      by (rule gate_run_submits) (simp add: three_wrong_def)
  qed
  have e1: "lock_expired 905000 locked_gate" by (simp add: lock_expired_def locked_gate_eq)
  have e2: "\<not> lock_expired 904999 locked_gate" by (simp add: lock_expired_def locked_gate_eq)
  have a5: "attempts locked_gate = Num 5" by (simp add: locked_gate_eq)
  have f: "fst (submit secret 4000 three_wrong_gate)"
    by (simp add: submit_def handleSubmit_def trim_secret three_wrong_gate_eq)
  note w1 = attempts_bounded_on_runs [OF run, where now = 905000 and c = secret and later = 5000 and ss = emptyStorage]
  note w2 = attempts_bounded_on_runs [OF run, where now = 904999 and c = secret and later = 5000 and ss = emptyStorage]
  note w3 = attempts_bounded_on_runs [OF run3, where now = 4000 and c = secret and later = 5000 and ss = emptyStorage]
  from w1 e1 have c1: "attempts_in_range locked_gate" "attempts (tick 905000 locked_gate) = Num 0"
    by blast+
  from w2 e2 have c2: "tick 904999 locked_gate = locked_gate" by blast
  from w3 f have c3: "getItem (localStorage (snd (submit secret 4000 three_wrong_gate))) ''secretAttempts'' = None"
     "attempts (initialize 5000 (localStorage (snd (submit secret 4000 three_wrong_gate))) emptyStorage) = Num 0"
    by blast+
  from run run3 e1 e2 a5 f c1 c2 c3 show ?thesis by blast
qed

section \<open>Properties of navigation\<close>

lemma fire_due_page:
  "currentPage (fire_due now ts a) = currentPage a
   \<or> (\<exists>due. (due, currentPage (fire_due now ts a)) \<in> set ts \<and> due \<le> now)"
proof (induction ts arbitrary: a)
  case Nil
  then show ?case by simp
next
  case (Cons x rest)
  obtain due page where x: "x = (due, page)" by (cases x)
  show ?case
  proof (cases "due \<le> now")
    case True
    have "currentPage (fire_due now rest (navigation_timeout page a)) = page
       \<or> (\<exists>d. (d, currentPage (fire_due now rest (navigation_timeout page a))) \<in> set rest \<and> d \<le> now)"
      using Cons.IH [of "navigation_timeout page a"] by (simp add: navigation_timeout_def)
    then show ?thesis using True x by auto
  next
    case False
    then show ?thesis using Cons.IH [of a] x by auto
  qed
qed

text \<open>
  Claim C7. \<open>handleNavigation\<close> to the current page returns the state as it is, with no
  timer scheduled. To another page it sets \<open>isTransitioning\<close>, keeps \<open>currentPage\<close> and
  schedules one timer due 350 ms later; the timer's callback sets \<open>currentPage\<close> to the
  target and clears \<open>isTransitioning\<close>. With no other timer pending, nothing changes before
  the 350 ms have passed, and from then on the target page is shown.
\<close>

theorem handleNavigation_transition:
  "(page = currentPage a \<longrightarrow> handleNavigation now page a = a)
   \<and> (page \<noteq> currentPage a \<longrightarrow>
         isTransitioning (handleNavigation now page a)
       \<and> currentPage (handleNavigation now page a) = currentPage a
       \<and> timers (handleNavigation now page a) = timers a @ [(now + 350, page)]
       \<and> currentPage (navigation_timeout page b) = page
       \<and> \<not> isTransitioning (navigation_timeout page b)
       \<and> (timers a = [] \<longrightarrow>
            (\<forall>t. t < now + 350 \<longrightarrow>
                run_timers t (handleNavigation now page a) = handleNavigation now page a)
          \<and> (\<forall>t. now + 350 \<le> t \<longrightarrow>
                currentPage (run_timers t (handleNavigation now page a)) = page
              \<and> \<not> isTransitioning (run_timers t (handleNavigation now page a))
              \<and> timers (run_timers t (handleNavigation now page a)) = [])))"
  by (auto simp: handleNavigation_def navigation_timeout_def run_timers_def transitionMillis_def)

theorem handleNavigation_witness:
  "handleNavigation 0 ''home'' app_start = app_start
   \<and> ''about'' \<noteq> currentPage app_start
   \<and> isTransitioning (handleNavigation 0 ''about'' app_start)
   \<and> currentPage (handleNavigation 0 ''about'' app_start) = ''home''
   \<and> timers (handleNavigation 0 ''about'' app_start) = [(350, ''about'')]
   \<and> run_timers 349 (handleNavigation 0 ''about'' app_start) = handleNavigation 0 ''about'' app_start
   \<and> currentPage (run_timers 350 (handleNavigation 0 ''about'' app_start)) = ''about''
   \<and> \<not> isTransitioning (run_timers 350 (handleNavigation 0 ''about'' app_start))"
proof -
  have h: "currentPage app_start = ''home''" and t: "timers app_start = []"
    by (simp_all add: app_start_def)
  have ne: "''about'' \<noteq> currentPage app_start" by (simp add: h)
  note w1 = handleNavigation_transition [of "''home''" app_start 0 app_start]
  note w2 = handleNavigation_transition [of "''about''" app_start 0 app_start]
  from w1 h have a: "handleNavigation 0 ''home'' app_start = app_start" by simp
  from w2 ne t have b: "isTransitioning (handleNavigation 0 ''about'' app_start)"
      "currentPage (handleNavigation 0 ''about'' app_start) = currentPage app_start"
      "timers (handleNavigation 0 ''about'' app_start) = timers app_start @ [(0 + 350, ''about'')]"
      "\<forall>t. t < 0 + 350 \<longrightarrow> run_timers t (handleNavigation 0 ''about'' app_start) = handleNavigation 0 ''about'' app_start"
      "\<forall>t. 0 + 350 \<le> t \<longrightarrow>
                currentPage (run_timers t (handleNavigation 0 ''about'' app_start)) = ''about''
              \<and> \<not> isTransitioning (run_timers t (handleNavigation 0 ''about'' app_start))
              \<and> timers (run_timers t (handleNavigation 0 ''about'' app_start)) = []"
    by blast+
  from b(4) have c: "run_timers 349 (handleNavigation 0 ''about'' app_start) = handleNavigation 0 ''about'' app_start"
    by simp
  from b(5) have d: "currentPage (run_timers 350 (handleNavigation 0 ''about'' app_start)) = ''about''
              \<and> \<not> isTransitioning (run_timers 350 (handleNavigation 0 ''about'' app_start))"
    by simp
  from a ne b(1,2,3) c d h t show ?thesis by simp
qed

lemma mid_transition_eq:
  "mid_transition = \<lparr>currentPage = ''home'', isTransitioning = True, isMobileMenuOpen = False,
                      secretUnlocked = False, timers = [(350, ''about'')]\<rparr>"
  by (simp add: mid_transition_def handleNavigation_def app_start_def transitionMillis_def)

text \<open>
  In the middle of the transition from the home page to the about page the secret-garden
  button is pressed while the gate is locked: the page changes at once, with
  \<open>isTransitioning\<close> set and no timer scheduled for it.
\<close>

theorem direct_page_change_counterexample:
  "isTransitioning mid_transition \<and> currentPage mid_transition = ''home''
   \<and> currentPage (app_step 100 (NavButton ''secretGarden'') mid_transition) = ''secret-garden''
   \<and> isTransitioning (app_step 100 (NavButton ''secretGarden'') mid_transition)
   \<and> timers (app_step 100 (NavButton ''secretGarden'') mid_transition) = timers mid_transition"
  by (simp add: mid_transition_eq nav_button_def)

text \<open>
  Claim C8, amended. A call of \<open>handleNavigation\<close> never changes \<open>currentPage\<close> itself,
  and every timer it schedules is due 350 ms later. \<open>currentPage\<close> changes only when a
  scheduled timer that is due fires, to that timer's page, or, at once and whether or not
  a transition is under way, to the secret-garden page: by \<open>onUnlock\<close>, or by the
  secret-garden button while the gate is locked.
\<close>

theorem page_changes_by_timer_or_secret:
  "currentPage (handleNavigation now page a) = currentPage a
   \<and> (\<forall>x \<in> set (timers (app_step now ev a)). x \<in> set (timers a) \<or> fst x = now + 350)
   \<and> (currentPage (app_step now ev a) \<noteq> currentPage a \<longrightarrow>
         (ev = TimersDue
          \<and> (\<exists>due. (due, currentPage (app_step now ev a)) \<in> set (timers a) \<and> due \<le> now))
       \<or> (currentPage (app_step now ev a) = ''secret-garden''
          \<and> (ev = SecretUnlock \<or> (ev = NavButton ''secretGarden'' \<and> \<not> secretUnlocked a))))"
proof -
  have nav: "\<And>p. currentPage (handleNavigation now p a) = currentPage a"
    by (simp add: handleNavigation_def)
  have tm: "\<forall>x \<in> set (timers (app_step now ev a)). x \<in> set (timers a) \<or> fst x = now + 350"
    by (cases ev)
       (auto simp: handleNavigation_def nav_button_def handleSecretUnlock_def run_timers_def
                   transitionMillis_def)
  have pg: "currentPage (app_step now ev a) \<noteq> currentPage a \<longrightarrow>
         (ev = TimersDue
          \<and> (\<exists>due. (due, currentPage (app_step now ev a)) \<in> set (timers a) \<and> due \<le> now))
       \<or> (currentPage (app_step now ev a) = ''secret-garden''
          \<and> (ev = SecretUnlock \<or> (ev = NavButton ''secretGarden'' \<and> \<not> secretUnlocked a)))"
  proof (cases ev)
    case (Navigate p)
    then show ?thesis by (simp add: nav)
  next
    case (NavButton p)
    then show ?thesis by (auto simp: nav_button_def nav)
  next
    case SecretUnlock
    then show ?thesis by (simp add: handleSecretUnlock_def)
  next
    case ToggleMenu
    then show ?thesis by simp
  next
    case TimersDue
    then show ?thesis using fire_due_page [of now "timers a" a] by (auto simp: run_timers_def)
  qed
  from nav tm pg show ?thesis by blast
qed

theorem page_changes_witness:
  "currentPage mid_transition = ''home''
   \<and> currentPage (app_step 350 TimersDue mid_transition) = ''about''
   \<and> (\<exists>due. (due, currentPage (app_step 350 TimersDue mid_transition)) \<in> set (timers mid_transition)
          \<and> due \<le> 350)
   \<and> currentPage (app_step 100 (Navigate ''info'') mid_transition) = ''home''
   \<and> timers (app_step 100 (Navigate ''info'') mid_transition) = [(350, ''about''), (450, ''info'')]"
proof -
  note w1 = page_changes_by_timer_or_secret [of 350 "''info''" mid_transition TimersDue]
  note w2 = page_changes_by_timer_or_secret [of 100 "''info''" mid_transition "Navigate ''info''"]
  have h: "currentPage mid_transition = ''home''" by (simp add: mid_transition_eq)
  have a: "currentPage (app_step 350 TimersDue mid_transition) = ''about''"
    by (simp add: mid_transition_eq run_timers_def navigation_timeout_def)
  have ch: "currentPage (app_step 350 TimersDue mid_transition) \<noteq> currentPage mid_transition"
    unfolding a h by simp
  have ns: "currentPage (app_step 350 TimersDue mid_transition) \<noteq> ''secret-garden''"
    unfolding a by simp
  from w1 ch ns have d: "\<exists>due. (due, currentPage (app_step 350 TimersDue mid_transition))
        \<in> set (timers mid_transition) \<and> due \<le> 350"
    by blast
  have b: "currentPage (app_step 100 (Navigate ''info'') mid_transition) = currentPage mid_transition"
    using w2 by simp
  have c: "timers (app_step 100 (Navigate ''info'') mid_transition) = [(350, ''about''), (450, ''info'')]"
    by (simp add: mid_transition_eq handleNavigation_def transitionMillis_def)
  from h a d b c show ?thesis by (simp only: simp_thms)
qed

section \<open>Properties of the suggestion form\<close>

lemma match_here_Lit:
  "match_here (Lit c # ps) s \<longleftrightarrow> (\<exists>r. s = c # r \<and> match_here ps r)"
  by (cases s) auto

lemma match_here_NonSpaces:
  "match_here (NonSpaces # ps) s \<longleftrightarrow>
     (\<exists>w r. s = w @ r \<and> w \<noteq> [] \<and> list_all (\<lambda>c. \<not> is_space c) w \<and> match_here ps r)"
proof (induction s)
  case Nil
  then show ?case by simp
next
  case (Cons x xs)
  show ?case
  proof
    assume "match_here (NonSpaces # ps) (x # xs)"
    then have nx: "\<not> is_space x" and d: "match_here (NonSpaces # ps) xs \<or> match_here ps xs"
      by simp_all
    from d show "\<exists>w r. x # xs = w @ r \<and> w \<noteq> [] \<and> list_all (\<lambda>c. \<not> is_space c) w \<and> match_here ps r"
    proof
      assume "match_here (NonSpaces # ps) xs"
      then obtain w r where "xs = w @ r" "list_all (\<lambda>c. \<not> is_space c) w" "match_here ps r"
        using Cons.IH by blast
      then have "x # xs = (x # w) @ r \<and> x # w \<noteq> [] \<and> list_all (\<lambda>c. \<not> is_space c) (x # w) \<and> match_here ps r"
        using nx by simp
      then show ?thesis by blast
    next
      assume "match_here ps xs"
      then have "x # xs = [x] @ xs \<and> [x] \<noteq> [] \<and> list_all (\<lambda>c. \<not> is_space c) [x] \<and> match_here ps xs"
        using nx by simp
      then show ?thesis by blast
    qed
  next
    assume "\<exists>w r. x # xs = w @ r \<and> w \<noteq> [] \<and> list_all (\<lambda>c. \<not> is_space c) w \<and> match_here ps r"
    then obtain w r where w: "x # xs = w @ r" "w \<noteq> []" "list_all (\<lambda>c. \<not> is_space c) w" "match_here ps r"
      by blast
    then obtain w' where w': "w = x # w'" "xs = w' @ r" by (cases w) auto
    have nx: "\<not> is_space x" using w(3) w'(1) by simp
    show "match_here (NonSpaces # ps) (x # xs)"
    proof (cases "w' = []")
      case True
      then show ?thesis using nx w(4) w'(2) by simp
    next
      case False
      then have "match_here (NonSpaces # ps) xs"
        using Cons.IH w(3,4) w' by auto
      then show ?thesis using nx by simp
    qed
  qed
qed

lemma match_here_NonSpacesI:
  "w \<noteq> [] \<Longrightarrow> list_all (\<lambda>c. \<not> is_space c) w \<Longrightarrow> match_here ps r \<Longrightarrow>
   match_here (NonSpaces # ps) (w @ r)"
  unfolding match_here_NonSpaces by blast

lemma regex_test_iff: "regex_test p s \<longleftrightarrow> (\<exists>pre r. s = pre @ r \<and> match_here p r)"
proof (induction s)
  case Nil
  then show ?case by simp
next
  case (Cons x xs)
  show ?case
  proof
    assume "regex_test p (x # xs)"
    then have "match_here p (x # xs) \<or> regex_test p xs" by simp
    then show "\<exists>pre r. x # xs = pre @ r \<and> match_here p r"
    proof
      assume "match_here p (x # xs)"
      then have "x # xs = [] @ (x # xs) \<and> match_here p (x # xs)" by simp
      then show ?thesis by blast
    next
      assume "regex_test p xs"
      then obtain pre r where "xs = pre @ r" "match_here p r" using Cons.IH by blast
      then have "x # xs = (x # pre) @ r \<and> match_here p r" by simp
      then show ?thesis by blast
    qed
  next
    assume "\<exists>pre r. x # xs = pre @ r \<and> match_here p r"
    then obtain pre r where pr: "x # xs = pre @ r" "match_here p r" by blast
    show "regex_test p (x # xs)"
    proof (cases pre)
      case Nil
      then have "r = x # xs" using pr(1) by simp
      then show ?thesis using pr(2) by simp
    next
      case (Cons y pre')
      then have "xs = pre' @ r" using pr(1) by simp
      then have "regex_test p xs" using Cons.IH pr(2) by blast
      then show ?thesis by simp
    qed
  qed
qed

lemma email_pattern_part: "regex_test email_pattern s \<longleftrightarrow> has_shape_part s"
proof
  assume "regex_test email_pattern s"
  then obtain pre r where r: "s = pre @ r" "match_here email_pattern r"
    using regex_test_iff by blast
  from r(2) obtain l r1 where l: "r = l @ r1" "l \<noteq> []" "list_all (\<lambda>c. \<not> is_space c) l"
      "match_here [Lit CHR ''@'', NonSpaces, Lit CHR ''.'', NonSpaces] r1"
    unfolding email_pattern_def match_here_NonSpaces [of "[Lit CHR ''@'', NonSpaces, Lit CHR ''.'', NonSpaces]"]
    by blast
  from l(4) obtain r2 where r2: "r1 = CHR ''@'' # r2" "match_here [NonSpaces, Lit CHR ''.'', NonSpaces] r2"
    unfolding match_here_Lit by blast
  from r2(2) obtain d r3 where d: "r2 = d @ r3" "d \<noteq> []" "list_all (\<lambda>c. \<not> is_space c) d"
      "match_here [Lit CHR ''.'', NonSpaces] r3"
    unfolding match_here_NonSpaces [of "[Lit CHR ''.'', NonSpaces]"] by blast
  from d(4) obtain r4 where r4: "r3 = CHR ''.'' # r4" "match_here [NonSpaces] r4"
    unfolding match_here_Lit by blast
  from r4(2) obtain tl post where tl: "r4 = tl @ post" "tl \<noteq> []" "list_all (\<lambda>c. \<not> is_space c) tl"
    unfolding match_here_NonSpaces [of "[]"] by blast
  let ?m = "l @ ''@'' @ d @ ''.'' @ tl"
  have "list_all (\<lambda>c. \<not> is_space c) (l @ d @ tl)" using l(3) d(3) tl(3) by simp
  then have m: "local_domain_tld_shape ?m"
    unfolding local_domain_tld_shape_def using l(2) d(2) tl(2) by blast
  have "s = pre @ ?m @ post"
    using r(1) l(1) r2(1) d(1) r4(1) tl(1) by simp
  then show "has_shape_part s"
    unfolding has_shape_part_def using m by blast
next
  assume "has_shape_part s"
  then obtain pre m post where s: "s = pre @ m @ post" and m: "local_domain_tld_shape m"
    unfolding has_shape_part_def by blast
  from m obtain l d tl where
      md: "m = l @ ''@'' @ d @ ''.'' @ tl"
      and ne: "l \<noteq> []" "d \<noteq> []" "tl \<noteq> []"
      and ns: "list_all (\<lambda>c. \<not> is_space c) (l @ d @ tl)"
    unfolding local_domain_tld_shape_def by blast
  have nl: "list_all (\<lambda>c. \<not> is_space c) l" and nd: "list_all (\<lambda>c. \<not> is_space c) d"
    and nt: "list_all (\<lambda>c. \<not> is_space c) tl"
    using ns by simp_all
  have "match_here [] post" by simp
  then have m5: "match_here [NonSpaces] (tl @ post)"
    by (rule match_here_NonSpacesI [OF ne(3) nt])
  then have m4: "match_here [Lit CHR ''.'', NonSpaces] (''.'' @ tl @ post)" by simp
  have m3: "match_here [NonSpaces, Lit CHR ''.'', NonSpaces] (d @ ''.'' @ tl @ post)"
    by (rule match_here_NonSpacesI [OF ne(2) nd m4])
  then have m2: "match_here [Lit CHR ''@'', NonSpaces, Lit CHR ''.'', NonSpaces] (''@'' @ d @ ''.'' @ tl @ post)"
    by simp
  have m1: "match_here email_pattern (l @ ''@'' @ d @ ''.'' @ tl @ post)"
    unfolding email_pattern_def by (rule match_here_NonSpacesI [OF ne(1) nl m2])
  have "s = pre @ (l @ ''@'' @ d @ ''.'' @ tl @ post)" using s md by simp
  then show "regex_test email_pattern s"
    unfolding regex_test_iff using m1 by blast
qed

lemma shape_no_space: "local_domain_tld_shape s \<Longrightarrow> list_all (\<lambda>c. \<not> is_space c) s"
  by (auto simp: local_domain_tld_shape_def is_space_def)

lemma shape_part_no_space:
  assumes "list_all (\<lambda>c. \<not> is_space c) s"
  shows "has_shape_part s \<longleftrightarrow> local_domain_tld_shape s"
proof
  assume "local_domain_tld_shape s"
  then have "s = [] @ s @ [] \<and> local_domain_tld_shape s" by simp
  then show "has_shape_part s" unfolding has_shape_part_def by blast
next
  assume "has_shape_part s"
  then obtain pre m post where s: "s = pre @ m @ post" and m: "local_domain_tld_shape m"
    unfolding has_shape_part_def by blast
  from m obtain l d tl where
      md: "m = l @ ''@'' @ d @ ''.'' @ tl"
      and ne: "l \<noteq> []" "d \<noteq> []" "tl \<noteq> []"
      and ns: "list_all (\<lambda>c. \<not> is_space c) (l @ d @ tl)"
    unfolding local_domain_tld_shape_def by blast
  have all: "list_all (\<lambda>c. \<not> is_space c) pre" "list_all (\<lambda>c. \<not> is_space c) post"
    using assms s by simp_all
  have "s = (pre @ l) @ ''@'' @ d @ ''.'' @ (tl @ post)" using s md by simp
  moreover have "pre @ l \<noteq> []" "tl @ post \<noteq> []" using ne by simp_all
  moreover have "list_all (\<lambda>c. \<not> is_space c) ((pre @ l) @ d @ (tl @ post))"
    using ns all by simp
  ultimately show "local_domain_tld_shape s"
    unfolding local_domain_tld_shape_def using ne(2) by blast
qed

lemma trim_empty_iff: "trim s = [] \<longleftrightarrow> list_all is_space s"
proof
  assume "list_all is_space s"
  then have d: "dropWhile is_space s = []" by (simp add: list_all_iff)
  show "trim s = []" by (simp only: trim_def d rev.simps dropWhile.simps)
next
  assume "trim s = []"
  then have "dropWhile is_space (rev (dropWhile is_space s)) = []" by (simp add: trim_def)
  then have "list_all is_space (rev (dropWhile is_space s))" by (simp add: list_all_iff)
  then have a: "list_all is_space (dropWhile is_space s)" by (simp add: list_all_iff)
  have "dropWhile is_space s = []"
  proof (cases "dropWhile is_space s")
    case Nil
    then show ?thesis .
  next
    case (Cons x xs)
    then have "\<not> is_space x" using hd_dropWhile [of is_space s] by auto
    moreover have "is_space x" using a Cons by simp
    ultimately show ?thesis by simp
  qed
  then show "list_all is_space s" by (simp add: list_all_iff)
qed

text \<open>
  The email \<open>x a@b.co y\<close> is not empty and, holding spaces, does not have the shape, and
  \<open>validateForm\<close> reports no error for it: the expression finds \<open>a@b.co\<close> inside.
\<close>

theorem email_with_spaces_counterexample:
  "email \<lparr>title = ''x'', email = ''x a@b.co y''\<rparr> \<noteq> []
   \<and> \<not> local_domain_tld_shape (email \<lparr>title = ''x'', email = ''x a@b.co y''\<rparr>)
   \<and> map_of (fst (validateForm \<lparr>title = ''x'', email = ''x a@b.co y''\<rparr>)) ''email'' = None
   \<and> snd (validateForm \<lparr>title = ''x'', email = ''x a@b.co y''\<rparr>)"
proof -
  have "\<not> list_all (\<lambda>c. \<not> is_space c) ''x a@b.co y''" by (simp add: is_space_def)
  then have n: "\<not> local_domain_tld_shape ''x a@b.co y''" using shape_no_space by blast
  have v: "validateForm \<lparr>title = ''x'', email = ''x a@b.co y''\<rparr> = ([], True)"
    by (simp add: validateForm_def trim_def is_space_def email_pattern_def)
  show ?thesis using n by (simp add: v)
qed

text \<open>
  Claim C9, amended. \<open>validateForm\<close> reports an error for \<open>title\<close> exactly when the title
  holds nothing but white space, so that it is empty after trimming. It reports an error
  for \<open>email\<close> exactly when the email is not empty and no piece of it has the
  \<open>local@domain.tld\<close> shape; for an email that holds no white space that is exactly when
  it is not empty and does not have the shape itself. The error object is empty, and the
  function returns true, exactly when it reports neither error. An empty form and a form
  with a blank title give an error for the title only, the email \<open>bad\<close> under the title
  \<open>x\<close> gives an error for the email only, and \<open>a@b.co\<close> under the title \<open>x\<close> gives none.
\<close>

theorem validateForm_errors:
  "(map_of (fst (validateForm form)) ''title'' \<noteq> None \<longleftrightarrow> list_all is_space (title form))
   \<and> (map_of (fst (validateForm form)) ''email'' \<noteq> None
        \<longleftrightarrow> email form \<noteq> [] \<and> \<not> has_shape_part (email form))
   \<and> (list_all (\<lambda>c. \<not> is_space c) (email form) \<longrightarrow>
        (map_of (fst (validateForm form)) ''email'' \<noteq> None
          \<longleftrightarrow> email form \<noteq> [] \<and> \<not> local_domain_tld_shape (email form)))
   \<and> (fst (validateForm form) = []
        \<longleftrightarrow> \<not> list_all is_space (title form)
            \<and> (email form = [] \<or> has_shape_part (email form)))
   \<and> (snd (validateForm form) \<longleftrightarrow> fst (validateForm form) = [])
   \<and> map fst (fst (validateForm \<lparr>title = [], email = []\<rparr>)) = [''title'']
   \<and> map fst (fst (validateForm \<lparr>title = ''  '', email = []\<rparr>)) = [''title'']
   \<and> map fst (fst (validateForm \<lparr>title = ''x'', email = ''bad''\<rparr>)) = [''email'']
   \<and> fst (validateForm \<lparr>title = ''x'', email = ''a@b.co''\<rparr>) = []
   \<and> fst (validateForm \<lparr>title = '' x '', email = ''a@b.co''\<rparr>) = []"
proof -
  have t: "map_of (fst (validateForm form)) ''title'' \<noteq> None \<longleftrightarrow> list_all is_space (title form)"
    by (auto simp: validateForm_def Let_def trim_empty_iff)
  have e: "map_of (fst (validateForm form)) ''email'' \<noteq> None
        \<longleftrightarrow> email form \<noteq> [] \<and> \<not> has_shape_part (email form)"
    by (auto simp: validateForm_def Let_def email_pattern_part)
  have w: "list_all (\<lambda>c. \<not> is_space c) (email form) \<longrightarrow>
        (map_of (fst (validateForm form)) ''email'' \<noteq> None
          \<longleftrightarrow> email form \<noteq> [] \<and> \<not> local_domain_tld_shape (email form))"
    using e shape_part_no_space [of "email form"] by blast
  have v: "fst (validateForm form) = []
        \<longleftrightarrow> \<not> list_all is_space (title form)
            \<and> (email form = [] \<or> has_shape_part (email form))"
    by (auto simp: validateForm_def Let_def email_pattern_part trim_empty_iff)
  have r: "snd (validateForm form) \<longleftrightarrow> fst (validateForm form) = []"
    by (auto simp: validateForm_def Let_def)
  have e1: "map fst (fst (validateForm \<lparr>title = [], email = []\<rparr>)) = [''title'']"
    by (simp add: validateForm_def trim_def)
  have e2: "map fst (fst (validateForm \<lparr>title = ''  '', email = []\<rparr>)) = [''title'']"
    by (simp add: validateForm_def trim_def is_space_def)
  have e3: "map fst (fst (validateForm \<lparr>title = ''x'', email = ''bad''\<rparr>)) = [''email'']"
    by (simp add: validateForm_def trim_def is_space_def email_pattern_def)
  have e4: "fst (validateForm \<lparr>title = ''x'', email = ''a@b.co''\<rparr>) = []"
    by (simp add: validateForm_def trim_def is_space_def email_pattern_def)
  have e5: "fst (validateForm \<lparr>title = '' x '', email = ''a@b.co''\<rparr>) = []"
    by (simp add: validateForm_def trim_def is_space_def email_pattern_def)
  from t e w v r e1 e2 e3 e4 e5 show ?thesis by blast
qed

theorem validateForm_witness:
  "list_all (\<lambda>c. \<not> is_space c) ''a@b.co'' \<and> local_domain_tld_shape ''a@b.co''
   \<and> map_of (fst (validateForm \<lparr>title = ''x'', email = ''a@b.co''\<rparr>)) ''email'' = None
   \<and> list_all (\<lambda>c. \<not> is_space c) ''bad'' \<and> \<not> local_domain_tld_shape ''bad''
   \<and> map_of (fst (validateForm \<lparr>title = ''x'', email = ''bad''\<rparr>)) ''email''
       = Some ''Please enter a valid email address''
   \<and> trim ''  a b  '' = ''a b''"
proof -
  let ?ok = "\<lparr>title = ''x'', email = ''a@b.co''\<rparr>"
  let ?bad = "\<lparr>title = ''x'', email = ''bad''\<rparr>"
  have n1: "list_all (\<lambda>c. \<not> is_space c) (email ?ok)" by (simp add: is_space_def)
  have n2: "list_all (\<lambda>c. \<not> is_space c) (email ?bad)" by (simp add: is_space_def)
  have v1: "map_of (fst (validateForm ?ok)) ''email'' = None"
    by (simp add: validateForm_def trim_def is_space_def email_pattern_def)
  have v2: "map_of (fst (validateForm ?bad)) ''email'' = Some ''Please enter a valid email address''"
    by (simp add: validateForm_def trim_def is_space_def email_pattern_def)
  have s1: "local_domain_tld_shape (email ?ok)"
    using validateForm_errors [of ?ok] n1 v1 by auto
  have s2: "\<not> local_domain_tld_shape (email ?bad)"
    using validateForm_errors [of ?bad] n2 v2 by auto
  have tr: "trim ''  a b  '' = ''a b''" by (simp add: trim_def is_space_def)
  from n1 n2 v1 v2 s1 s2 tr show ?thesis by simp
qed

section \<open>Properties of the translation lookup\<close>















end
